theory Spec2Isabelle
  imports Main "HOL-Library.Word"
begin

section \<open>Data model\<close>

text \<open>
  A shallow embedding of \<^verbatim>\<open>untangle.py\<close>, the reader of LPAK bundles. Bytes are
  8-bit words, a \<^verbatim>\<open>bytes\<close> object is a list of them, and a Python \<^verbatim>\<open>str\<close> is the list of
  its code points. The struct formats \<^verbatim>\<open>H\<close> and \<^verbatim>\<open>I\<close> decode unsigned integers and the
  parser only adds, multiplies and floor-divides them, so its local integers are natural
  numbers; the fields of the \<^verbatim>\<open>FileObject\<close> dataclass are declared \<^verbatim>\<open>int\<close>.
\<close>

type_synonym byte = "8 word"

type_synonym str = "nat list"

text \<open>
  The exceptions the parser can raise: \<^verbatim>\<open>struct.error\<close> (a buffer shorter than the
  format), \<^verbatim>\<open>ValueError\<close> with its message, and \<^verbatim>\<open>UnicodeDecodeError\<close>.
\<close>

datatype error = StructError | ValueError string | UnicodeDecodeError

record FileObject =
  offset :: int
  size_f :: int
  compressed_size :: int
  compressed :: bool
  filename :: str

text \<open>The byte order character of a struct format: \<^verbatim>\<open>>\<close> is \<open>Big\<close>, \<^verbatim>\<open><\<close> is \<open>Little\<close>.\<close>

datatype endianness = Big | Little

section \<open>The binary file\<close>

text \<open>
  A file opened with \<^verbatim>\<open>open('rb')\<close>: its content and the current position. \<^verbatim>\<open>seek\<close> to any
  position is allowed (also past the end); \<^verbatim>\<open>read(n)\<close> returns the at most \<open>n\<close> bytes
  that remain and advances by what it returned.
\<close>

record binary_io =
  content :: "byte list"
  pos :: nat

definition open_rb :: "byte list \<Rightarrow> binary_io" where
  "open_rb bs = \<lparr>content = bs, pos = 0\<rparr>"

definition seek :: "nat \<Rightarrow> binary_io \<Rightarrow> binary_io" where
  "seek p f = f\<lparr>pos := p\<rparr>"

definition read :: "nat \<Rightarrow> binary_io \<Rightarrow> byte list \<times> binary_io" where
  "read n f =
     (let buf = take n (drop (pos f) (content f))
      in (buf, f\<lparr>pos := pos f + length buf\<rparr>))"

section \<open>struct\<close>

text \<open>An unsigned integer from its bytes, most significant byte first.\<close>

definition be_uint :: "byte list \<Rightarrow> nat" where
  "be_uint bs = foldl (\<lambda>a b. a * 256 + unat b) 0 bs"

definition decode_uint :: "endianness \<Rightarrow> byte list \<Rightarrow> nat" where
  "decode_uint e bs = (case e of Big \<Rightarrow> be_uint bs | Little \<Rightarrow> be_uint (rev bs))"

text \<open>
  \<^verbatim>\<open>struct.unpack_from(fmt, buf)\<close> for the three shapes of format the parser uses:
  \<^verbatim>\<open>"H"\<close> (one unsigned 16-bit integer), \<^verbatim>\<open>"I" * n\<close> (\<open>n\<close> unsigned 32-bit integers) and
  \<^verbatim>\<open>"<n>s"\<close> (\<open>n\<close> raw bytes). With an explicit byte order there is no padding, so
  \<^verbatim>\<open>calcsize\<close> is the sum of the widths. A buffer shorter than that raises
  \<^verbatim>\<open>struct.error\<close>.
\<close>

definition calcsize_H :: nat where
  "calcsize_H = 2"

definition calcsize_I :: "nat \<Rightarrow> nat" where
  "calcsize_I n = 4 * n"

definition calcsize_s :: "nat \<Rightarrow> nat" where
  "calcsize_s n = n"

definition unpack_from_H :: "endianness \<Rightarrow> byte list \<Rightarrow> error + nat" where
  "unpack_from_H e buf =
     (if length buf < calcsize_H then Inl StructError
      else Inr (decode_uint e (take 2 buf)))"

definition unpack_from_I :: "endianness \<Rightarrow> nat \<Rightarrow> byte list \<Rightarrow> error + nat list" where
  "unpack_from_I e n buf =
     (if length buf < calcsize_I n then Inl StructError
      else Inr (map (\<lambda>k. decode_uint e (take 4 (drop (4 * k) buf))) [0..<n]))"

definition unpack_from_s :: "nat \<Rightarrow> byte list \<Rightarrow> error + byte list" where
  "unpack_from_s n buf =
     (if length buf < calcsize_s n then Inl StructError
      else Inr (take n buf))"

section \<open>Text decoding\<close>

text \<open>
  \<^verbatim>\<open>bytes.decode()\<close>: strict UTF-8. The well-formed byte sequences are those of the
  Unicode standard (no overlong forms, no surrogates, nothing above U+10FFFF); anything
  else raises \<^verbatim>\<open>UnicodeDecodeError\<close>.
\<close>

definition cont :: "nat \<Rightarrow> bool" where
  "cont b = (128 \<le> b \<and> b \<le> 191)"

fun utf8 :: "nat list \<Rightarrow> str option" where
  "utf8 [] = Some []"
| "utf8 (b0 # bs) =
     (if b0 < 128 then map_option ((#) b0) (utf8 bs)
      else if 194 \<le> b0 \<and> b0 \<le> 223 then
        (case bs of
           b1 # r \<Rightarrow>
             if cont b1 then map_option ((#) ((b0 - 192) * 64 + (b1 - 128))) (utf8 r)
             else None
         | _ \<Rightarrow> None)
      else if 224 \<le> b0 \<and> b0 \<le> 239 then
        (case bs of
           b1 # b2 # r \<Rightarrow>
             if (if b0 = 224 then 160 else 128) \<le> b1
                \<and> b1 \<le> (if b0 = 237 then 159 else 191) \<and> cont b2
             then map_option ((#) ((b0 - 224) * 4096 + (b1 - 128) * 64 + (b2 - 128))) (utf8 r)
             else None
         | _ \<Rightarrow> None)
      else if 240 \<le> b0 \<and> b0 \<le> 244 then
        (case bs of
           b1 # b2 # b3 # r \<Rightarrow>
             if (if b0 = 240 then 144 else 128) \<le> b1
                \<and> b1 \<le> (if b0 = 244 then 143 else 191) \<and> cont b2 \<and> cont b3
             then map_option
                    ((#) ((b0 - 240) * 262144 + (b1 - 128) * 4096 + (b2 - 128) * 64 + (b3 - 128)))
                    (utf8 r)
             else None
         | _ \<Rightarrow> None)
      else None)"

definition decode :: "byte list \<Rightarrow> error + str" where
  "decode bs = (case utf8 (map unat bs) of None \<Rightarrow> Inl UnicodeDecodeError | Some s \<Rightarrow> Inr s)"

section \<open>LPAKParser\<close>

record LPAKParser =
  file' :: binary_io
  endianness :: endianness
  file_objects :: "FileObject list"

text \<open>
  \<^verbatim>\<open>LPAKParser.unpack\<close>: read \<^verbatim>\<open>calcsize\<close> bytes at the current position and decode them
  with the parser's byte order. The three definitions are the method at the three shapes
  of format; \<open>unpack_H\<close> and \<open>unpack_s\<close> return the only element of the tuple, which
  is what the callers take (\<^verbatim>\<open>[0]\<close>).
\<close>

definition unpack_H :: "LPAKParser \<Rightarrow> error + (nat \<times> LPAKParser)" where
  "unpack_H p =
     (case read calcsize_H (file' p) of (buf, f') \<Rightarrow>
        (case unpack_from_H (endianness p) buf of
           Inl err \<Rightarrow> Inl err
         | Inr v \<Rightarrow> Inr (v, p\<lparr>file' := f'\<rparr>)))"

definition unpack_I :: "nat \<Rightarrow> LPAKParser \<Rightarrow> error + (nat list \<times> LPAKParser)" where
  "unpack_I n p =
     (case read (calcsize_I n) (file' p) of (buf, f') \<Rightarrow>
        (case unpack_from_I (endianness p) n buf of
           Inl err \<Rightarrow> Inl err
         | Inr vs \<Rightarrow> Inr (vs, p\<lparr>file' := f'\<rparr>)))"

definition unpack_s :: "nat \<Rightarrow> LPAKParser \<Rightarrow> error + (byte list \<times> LPAKParser)" where
  "unpack_s n p =
     (case read (calcsize_s n) (file' p) of (buf, f') \<Rightarrow>
        (case unpack_from_s n buf of
           Inl err \<Rightarrow> Inl err
         | Inr raw \<Rightarrow> Inr (raw, p\<lparr>file' := f'\<rparr>)))"

text \<open>
  A \<^verbatim>\<open>for\<close> loop over a list of indices, with the loop's state passed along; an exception
  in the body ends the loop.
\<close>

fun for_range :: "(nat \<Rightarrow> 's \<Rightarrow> error + 's) \<Rightarrow> nat list \<Rightarrow> 's \<Rightarrow> error + 's" where
  "for_range body [] s = Inr s"
| "for_range body (i # is) s =
     (case body i s of Inl err \<Rightarrow> Inl err | Inr s' \<Rightarrow> for_range body is s')"

text \<open>
  The body of the loop of \<^verbatim>\<open>parse_files_v1\<close>. The loop's state is the parser and
  \<^verbatim>\<open>current_name_offset\<close>. Unpacking five integers into five names cannot fail for a
  five-integer format; Python would raise \<^verbatim>\<open>ValueError\<close> on any other length.
\<close>

definition size_of_file_record :: nat where
  "size_of_file_record = 20"

definition parse_entry ::
  "nat \<Rightarrow> nat \<Rightarrow> nat \<Rightarrow> nat \<Rightarrow> LPAKParser \<times> nat \<Rightarrow> error + (LPAKParser \<times> nat)" where
  "parse_entry start_of_file_entries start_of_file_names start_of_data i s =
     (case s of (p, current_name_offset) \<Rightarrow>
        (case unpack_I 5 (p\<lparr>file' := seek (start_of_file_entries + i * size_of_file_record) (file' p)\<rparr>) of
           Inl err \<Rightarrow> Inl err
         | Inr (vs, p1) \<Rightarrow>
             (case vs of
                [entry_offset, name_offset, sz, csz, c] \<Rightarrow>
                  (case unpack_s 255 (p1\<lparr>file' := seek (start_of_file_names + current_name_offset) (file' p1)\<rparr>) of
                     Inl err \<Rightarrow> Inl err
                   | Inr (raw, p2) \<Rightarrow>
                       (let file_name = takeWhile (\<lambda>b. b \<noteq> 0) raw;
                            current_name_offset' = current_name_offset + (length file_name + 1)
                        in case decode file_name of
                             Inl err \<Rightarrow> Inl err
                           | Inr name \<Rightarrow>
                               Inr (p2\<lparr>file_objects := file_objects p2 @
                                      [\<lparr>offset = int (entry_offset + start_of_data),
                                        size_f = int sz,
                                        compressed_size = int csz,
                                        compressed = (c \<noteq> 0),
                                        filename = name\<rparr>]\<rparr>,
                                    current_name_offset')))
              | _ \<Rightarrow> Inl (ValueError ''not enough values to unpack''))))"

definition parse_files_v1 :: "LPAKParser \<Rightarrow> error + LPAKParser" where
  "parse_files_v1 p =
     (case unpack_I 7 (p\<lparr>file' := seek 12 (file' p)\<rparr>) of
        Inl err \<Rightarrow> Inl err
      | Inr (vs, p1) \<Rightarrow>
          (case vs of
             [start_of_file_entries, start_of_file_names, start_of_data, u1,
              size_of_file_entries, u2, u3] \<Rightarrow>
               (let num_files = size_of_file_entries div size_of_file_record;
                    p2 = p1\<lparr>file' := seek start_of_file_entries (file' p1)\<rparr>
                in case for_range
                          (parse_entry start_of_file_entries start_of_file_names start_of_data)
                          [0..<num_files] (p2, 0) of
                     Inl err \<Rightarrow> Inl err
                   | Inr (p3, current_name_offset) \<Rightarrow> Inr p3)
           | _ \<Rightarrow> Inl (ValueError ''not enough values to unpack'')))"

definition parse_files :: "LPAKParser \<Rightarrow> error + LPAKParser" where
  "parse_files p =
     (case unpack_H (p\<lparr>file' := seek 6 (file' p)\<rparr>) of
        Inl err \<Rightarrow> Inl err
      | Inr (version, p1) \<Rightarrow>
          if version \<ge> 16320
          then Inl (ValueError ''Post-Full Throttle file format no supported'')
          else parse_files_v1 p1)"

definition LPAK :: "byte list" where
  "LPAK = [0x4C, 0x50, 0x41, 0x4B]"

definition KAPL :: "byte list" where
  "KAPL = [0x4B, 0x41, 0x50, 0x4C]"

text \<open>
  \<^verbatim>\<open>LPAKParser.__init__\<close>: the tag is read with \<^verbatim>\<open>struct.unpack_from('<4s', file.read(4))\<close>,
  then the byte order is chosen and the file table parsed.
\<close>

definition LPAKParser_init :: "binary_io \<Rightarrow> error + LPAKParser" where
  "LPAKParser_init f =
     (case read 4 f of (buf, f') \<Rightarrow>
        (case unpack_from_s 4 buf of
           Inl err \<Rightarrow> Inl err
         | Inr header \<Rightarrow>
             if header = LPAK
             then parse_files \<lparr>file' = f', endianness = Big, file_objects = []\<rparr>
             else if header = KAPL
             then parse_files \<lparr>file' = f', endianness = Little, file_objects = []\<rparr>
             else Inl (ValueError ''Not a LPAK file'')))"

section \<open>Views of a bundle\<close>

text \<open>
  The quantities the statements below are about. \<open>u32_at\<close> is an unsigned 32-bit field at
  a byte offset; \<open>version_field\<close> is the 16-bit field at offset 6 and \<open>header_field k\<close>
  the \<open>k\<close>-th of the seven 32-bit fields at offset 12 (0: start of the file entries, 1:
  start of the file names, 2: start of the data, 4: size of the file entries).
  \<open>raw_name_at\<close> is the name found at an offset: the bytes before the first null byte among
  the next 255. \<open>name_cursor\<close> is the running name offset: 0 for the first entry, and
  after each entry the length of its name plus one further. \<open>step_ok\<close> says that the
  \<open>i\<close>-th pass of the loop has the bytes it reads and a name that decodes;
  \<open>step_error\<close> is the exception of a pass that is not.
\<close>

definition u32_at :: "endianness \<Rightarrow> byte list \<Rightarrow> nat \<Rightarrow> nat" where
  "u32_at e bs q = decode_uint e (take 4 (drop q bs))"

definition raw_name_at :: "byte list \<Rightarrow> nat \<Rightarrow> byte list" where
  "raw_name_at bs q = takeWhile (\<lambda>b. b \<noteq> 0) (take 255 (drop q bs))"

fun name_cursor :: "byte list \<Rightarrow> nat \<Rightarrow> nat \<Rightarrow> nat" where
  "name_cursor bs sfn 0 = 0"
| "name_cursor bs sfn (Suc i) =
     name_cursor bs sfn i + (length (raw_name_at bs (sfn + name_cursor bs sfn i)) + 1)"

definition name_at :: "byte list \<Rightarrow> nat \<Rightarrow> nat \<Rightarrow> byte list" where
  "name_at bs sfn i = raw_name_at bs (sfn + name_cursor bs sfn i)"

definition entry_object :: "endianness \<Rightarrow> byte list \<Rightarrow> nat \<Rightarrow> nat \<Rightarrow> nat \<Rightarrow> str \<Rightarrow> FileObject" where
  "entry_object e bs sfe sod i name =
     \<lparr>offset = int (u32_at e bs (sfe + i * 20) + sod),
      size_f = int (u32_at e bs (sfe + i * 20 + 8)),
      compressed_size = int (u32_at e bs (sfe + i * 20 + 12)),
      compressed = (u32_at e bs (sfe + i * 20 + 16) \<noteq> 0),
      filename = name\<rparr>"

definition entry_ok :: "byte list \<Rightarrow> nat \<Rightarrow> nat \<Rightarrow> bool" where
  "entry_ok bs sfe i = (sfe + i * 20 + 20 \<le> length bs)"

definition name_ok :: "byte list \<Rightarrow> nat \<Rightarrow> nat \<Rightarrow> bool" where
  "name_ok bs sfn i = (sfn + name_cursor bs sfn i + 255 \<le> length bs)"

definition decodable :: "byte list \<Rightarrow> bool" where
  "decodable raw = (utf8 (map unat raw) \<noteq> None)"

definition the_name :: "byte list \<Rightarrow> str" where
  "the_name raw = (case utf8 (map unat raw) of Some s \<Rightarrow> s | None \<Rightarrow> [])"

definition step_ok :: "byte list \<Rightarrow> nat \<Rightarrow> nat \<Rightarrow> nat \<Rightarrow> bool" where
  "step_ok bs sfe sfn i = (entry_ok bs sfe i \<and> name_ok bs sfn i \<and> decodable (name_at bs sfn i))"

definition step_error :: "byte list \<Rightarrow> nat \<Rightarrow> nat \<Rightarrow> nat \<Rightarrow> error" where
  "step_error bs sfe sfn i =
     (if entry_ok bs sfe i \<and> name_ok bs sfn i then UnicodeDecodeError else StructError)"

definition object_at :: "endianness \<Rightarrow> byte list \<Rightarrow> nat \<Rightarrow> nat \<Rightarrow> nat \<Rightarrow> nat \<Rightarrow> FileObject" where
  "object_at e bs sfe sfn sod i = entry_object e bs sfe sod i (the_name (name_at bs sfn i))"

definition magic_endianness :: "byte list \<Rightarrow> endianness option" where
  "magic_endianness bs =
     (if take 4 bs = LPAK then Some Big else if take 4 bs = KAPL then Some Little else None)"

definition version_field :: "endianness \<Rightarrow> byte list \<Rightarrow> nat" where
  "version_field e bs = decode_uint e (take 2 (drop 6 bs))"

definition header_field :: "endianness \<Rightarrow> byte list \<Rightarrow> nat \<Rightarrow> nat" where
  "header_field e bs k = u32_at e bs (12 + 4 * k)"

definition num_files :: "endianness \<Rightarrow> byte list \<Rightarrow> nat" where
  "num_files e bs = header_field e bs 4 div 20"

definition steps_ok :: "endianness \<Rightarrow> byte list \<Rightarrow> nat \<Rightarrow> bool" where
  "steps_ok e bs j = (\<forall>i<j. step_ok bs (header_field e bs 0) (header_field e bs 1) i)"

definition records_of :: "endianness \<Rightarrow> byte list \<Rightarrow> FileObject list" where
  "records_of e bs =
     map (object_at e bs (header_field e bs 0) (header_field e bs 1) (header_field e bs 2))
       [0..<num_files e bs]"

section \<open>Encoding integers, and an example bundle\<close>

text \<open>
  \<^verbatim>\<open>struct.pack\<close> of an unsigned integer of \<open>w\<close> bytes, the inverse of \<open>decode_uint\<close>;
  \<open>enc16\<close> and \<open>enc32\<close> are the formats \<^verbatim>\<open>H\<close> and \<^verbatim>\<open>I\<close>.
\<close>

fun be_bytes :: "nat \<Rightarrow> nat \<Rightarrow> byte list" where
  "be_bytes 0 v = []"
| "be_bytes (Suc w) v = be_bytes w (v div 256) @ [of_nat (v mod 256)]"

definition pack_uint :: "endianness \<Rightarrow> nat \<Rightarrow> nat \<Rightarrow> byte list" where
  "pack_uint e w v = (case e of Big \<Rightarrow> be_bytes w v | Little \<Rightarrow> rev (be_bytes w v))"

definition enc16 :: "endianness \<Rightarrow> 16 word \<Rightarrow> byte list" where
  "enc16 e x = pack_uint e 2 (unat x)"

definition enc32 :: "endianness \<Rightarrow> 32 word \<Rightarrow> byte list" where
  "enc32 e x = pack_uint e 4 (unat x)"

text \<open>
  A big-endian bundle of three entries. The header places the entry table at 40, the name
  table at 100 and the data at 256, and gives 65 as the size of the entry table. The three
  entries have the relative offsets 5, 9 and 256 and the \<^verbatim>\<open>name_offset\<close> fields \<open>n1\<close>,
  \<open>n2\<close>, \<open>n3\<close>. The name table is \<^verbatim>\<open>b"a.txt\0bb.txt\0c\0"\<close>, and \<open>k\<close> null bytes follow
  it: 115 + \<open>k\<close> bytes in all.
\<close>

definition example_bundle :: "32 word \<Rightarrow> 32 word \<Rightarrow> 32 word \<Rightarrow> nat \<Rightarrow> byte list" where
  "example_bundle n1 n2 n3 k =
     LPAK @ [0, 0, 0, 1, 0, 0, 0, 0] @
     [0, 0, 0, 40,  0, 0, 0, 100,  0, 0, 1, 0,  0, 0, 0, 0,  0, 0, 0, 65,  0, 0, 0, 0,  0, 0, 0, 0] @
     [0, 0, 0, 5] @ enc32 Big n1 @ [0, 0, 0, 3,  0, 0, 0, 3,  0, 0, 0, 0] @
     [0, 0, 0, 9] @ enc32 Big n2 @ [0, 0, 0, 4,  0, 0, 0, 2,  0, 0, 0, 1] @
     [0, 0, 1, 0] @ enc32 Big n3 @ [0, 0, 0, 1,  0, 0, 0, 1,  0, 0, 0, 0] @
     [0x61, 0x2E, 0x74, 0x78, 0x74, 0, 0x62, 0x62, 0x2E, 0x74, 0x78, 0x74, 0, 0x63, 0] @
     replicate k 0"

text \<open>
  A bundle whose entry table is cut short. The name table is at 40 (the names \<^verbatim>\<open>a\<close> to
  \<^verbatim>\<open>e\<close>, then null bytes up to 300), the entry table is at 300 and its size is given as
  100, five entries, but the source ends after 90 bytes of it.
\<close>

definition truncated_bundle :: "byte list" where
  "truncated_bundle =
     LPAK @ [0, 0, 0, 1, 0, 0, 0, 0] @
     [0, 0, 1, 44,  0, 0, 0, 40,  0, 0, 0, 0,  0, 0, 0, 0,  0, 0, 0, 100,  0, 0, 0, 0,  0, 0, 0, 0] @
     [0x61, 0, 0x62, 0, 0x63, 0, 0x64, 0, 0x65, 0] @ replicate 250 0 @
     replicate 90 0"

text \<open>
  A bundle of one entry whose name, \<^verbatim>\<open>b"\xc3\x28"\<close>, is not UTF-8. The entry table is at 40
  and the name table at 60, with 256 bytes in it.
\<close>

definition bad_name_bundle :: "byte list" where
  "bad_name_bundle =
     LPAK @ [0, 0, 0, 1, 0, 0, 0, 0] @
     [0, 0, 0, 40,  0, 0, 0, 60,  0, 0, 0, 0,  0, 0, 0, 0,  0, 0, 0, 20,  0, 0, 0, 0,  0, 0, 0, 0] @
     replicate 20 0 @
     [0xC3, 0x28, 0] @ replicate 253 0"

section \<open>A bundle and its two encodings\<close>

text \<open>
  The content of a bundle, apart from its byte order: the fields of the header (the
  version, the starts of the entry table, of the name table and of the data, the size of
  the entry table, and the fields the parser does not read), the entries of the table with
  their five fields, and \<open>b_raw\<close>, the bytes of the file from offset 40 on, of which
  those under the entry table are replaced by the table. Every integer is a word of the
  width of its field.
\<close>

record entry =
  e_offset :: "32 word"
  e_name_offset :: "32 word"
  e_size :: "32 word"
  e_compressed_size :: "32 word"
  e_compressed :: "32 word"

record logical_bundle =
  b_unknown_4 :: "16 word"
  b_version :: "16 word"
  b_unknown_8 :: "32 word"
  b_start_of_file_entries :: "32 word"
  b_start_of_file_names :: "32 word"
  b_start_of_data :: "32 word"
  b_unused_3 :: "32 word"
  b_size_of_file_entries :: "32 word"
  b_unused_5 :: "32 word"
  b_unused_6 :: "32 word"
  b_entries :: "entry list"
  b_raw :: "byte list"

text \<open>
  The encoding in one byte order: the tag of that byte order (\<^verbatim>\<open>LPAK\<close> for \<open>Big\<close>, \<^verbatim>\<open>KAPL\<close>
  for \<open>Little\<close>), the fields of the header at their offsets (4, 6, 8, and the seven from
  12 on), and from 40 on the raw bytes with the entry table, 20 bytes an entry, laid over
  them at the offset the header gives (\<open>lay\<close>). Every field is written in the byte order;
  the raw bytes, the names among them, are the same in both encodings.
\<close>

definition magic :: "endianness \<Rightarrow> byte list" where
  "magic e = (case e of Big \<Rightarrow> LPAK | Little \<Rightarrow> KAPL)"

definition entry_fields :: "entry \<Rightarrow> 32 word list" where
  "entry_fields x = [e_offset x, e_name_offset x, e_size x, e_compressed_size x, e_compressed x]"

definition enc_entry :: "endianness \<Rightarrow> entry \<Rightarrow> byte list" where
  "enc_entry e x = concat (map (enc32 e) (entry_fields x))"

definition header_fields :: "logical_bundle \<Rightarrow> 32 word list" where
  "header_fields b =
     [b_start_of_file_entries b, b_start_of_file_names b, b_start_of_data b, b_unused_3 b,
      b_size_of_file_entries b, b_unused_5 b, b_unused_6 b]"

definition lay :: "nat \<Rightarrow> byte list \<Rightarrow> byte list \<Rightarrow> byte list" where
  "lay a xs ys = take a ys @ xs @ drop (a + length xs) ys"

definition entries_at :: "logical_bundle \<Rightarrow> nat" where
  "entries_at b = unat (b_start_of_file_entries b)"

definition entries_end :: "logical_bundle \<Rightarrow> nat" where
  "entries_end b = entries_at b + 20 * length (b_entries b)"

definition names_at :: "logical_bundle \<Rightarrow> nat" where
  "names_at b = unat (b_start_of_file_names b)"

definition announced :: "logical_bundle \<Rightarrow> nat" where
  "announced b = unat (b_size_of_file_entries b) div 20"

definition encode :: "endianness \<Rightarrow> logical_bundle \<Rightarrow> byte list" where
  "encode e b =
     magic e @ enc16 e (b_unknown_4 b) @ enc16 e (b_version b) @ enc32 e (b_unknown_8 b) @
     concat (map (enc32 e) (header_fields b)) @
     lay (entries_at b - 40) (concat (map (enc_entry e) (b_entries b))) (b_raw b)"

text \<open>
  What makes the content a bundle in both byte orders. The entry table starts after the
  header and not after the end of the raw bytes; the table holds the entries the header
  announces, or the file ends within 20 bytes after the entries it holds (a table cut
  short); and every name, with its null byte, lies after the header and before or after
  the entry table (\<open>name_clear\<close>: the names are taken in sequence, as the parser takes
  them, and a name without a null byte is the 255 bytes read).
\<close>

definition name_clear :: "logical_bundle \<Rightarrow> nat \<Rightarrow> bool" where
  "name_clear b i =
     (let q = names_at b + name_cursor (encode Big b) (names_at b) i;
          m = min (length (raw_name_at (encode Big b) q) + 1) 255
      in 40 \<le> q \<and> (q + m \<le> entries_at b \<or> entries_end b \<le> q))"

definition well_laid :: "logical_bundle \<Rightarrow> bool" where
  "well_laid b =
     (40 \<le> entries_at b \<and> entries_at b \<le> 40 + length (b_raw b) \<and>
      (announced b \<le> length (b_entries b) \<or> 40 + length (b_raw b) < entries_end b + 20) \<and>
      (\<forall>i<announced b. name_clear b i))"

text \<open>
  Three bundles. The first is the content of the example bundle above: the entry table
  at 40, the names after it at 100. The second has the names at 40 and two entries at 300.
  The third is the content of the bundle with the entry table cut short: the names at 40,
  four of the five announced entries at 300, and 10 more bytes.
\<close>

definition example_logical :: "32 word \<Rightarrow> 32 word \<Rightarrow> 32 word \<Rightarrow> logical_bundle" where
  "example_logical n1 n2 n3 =
     \<lparr>b_unknown_4 = 0, b_version = 1, b_unknown_8 = 0,
      b_start_of_file_entries = 40, b_start_of_file_names = 100, b_start_of_data = 256,
      b_unused_3 = 0, b_size_of_file_entries = 65, b_unused_5 = 0, b_unused_6 = 0,
      b_entries =
        [\<lparr>e_offset = 5, e_name_offset = n1, e_size = 3, e_compressed_size = 3, e_compressed = 0\<rparr>,
         \<lparr>e_offset = 9, e_name_offset = n2, e_size = 4, e_compressed_size = 2, e_compressed = 1\<rparr>,
         \<lparr>e_offset = 256, e_name_offset = n3, e_size = 1, e_compressed_size = 1, e_compressed = 0\<rparr>],
      b_raw = replicate 60 0 @
        [0x61, 0x2E, 0x74, 0x78, 0x74, 0, 0x62, 0x62, 0x2E, 0x74, 0x78, 0x74, 0, 0x63, 0] @
        replicate 253 0\<rparr>"

definition moved_logical :: logical_bundle where
  "moved_logical =
     \<lparr>b_unknown_4 = 0, b_version = 1, b_unknown_8 = 0,
      b_start_of_file_entries = 300, b_start_of_file_names = 40, b_start_of_data = 1000,
      b_unused_3 = 0, b_size_of_file_entries = 40, b_unused_5 = 0, b_unused_6 = 0,
      b_entries =
        [\<lparr>e_offset = 0, e_name_offset = 0, e_size = 7, e_compressed_size = 7, e_compressed = 0\<rparr>,
         \<lparr>e_offset = 7, e_name_offset = 6, e_size = 9, e_compressed_size = 2, e_compressed = 1\<rparr>],
      b_raw = [0x78, 0x2E, 0x62, 0x69, 0x6E, 0, 0x79, 0] @ replicate 295 0\<rparr>"

definition moved_bundle :: "byte list" where
  "moved_bundle =
     LPAK @ [0, 0, 0, 1, 0, 0, 0, 0] @
     [0, 0, 1, 44,  0, 0, 0, 40,  0, 0, 3, 232,  0, 0, 0, 0,  0, 0, 0, 40,  0, 0, 0, 0,  0, 0, 0, 0] @
     [0x78, 0x2E, 0x62, 0x69, 0x6E, 0, 0x79, 0] @ replicate 252 0 @
     [0, 0, 0, 0,  0, 0, 0, 0,  0, 0, 0, 7,  0, 0, 0, 7,  0, 0, 0, 0] @
     [0, 0, 0, 7,  0, 0, 0, 6,  0, 0, 0, 9,  0, 0, 0, 2,  0, 0, 0, 1] @
     replicate 3 0"

definition truncated_logical :: logical_bundle where
  "truncated_logical =
     \<lparr>b_unknown_4 = 0, b_version = 1, b_unknown_8 = 0,
      b_start_of_file_entries = 300, b_start_of_file_names = 40, b_start_of_data = 0,
      b_unused_3 = 0, b_size_of_file_entries = 100, b_unused_5 = 0, b_unused_6 = 0,
      b_entries =
        [\<lparr>e_offset = 0, e_name_offset = 0, e_size = 0, e_compressed_size = 0, e_compressed = 0\<rparr>,
         \<lparr>e_offset = 0, e_name_offset = 0, e_size = 0, e_compressed_size = 0, e_compressed = 0\<rparr>,
         \<lparr>e_offset = 0, e_name_offset = 0, e_size = 0, e_compressed_size = 0, e_compressed = 0\<rparr>,
         \<lparr>e_offset = 0, e_name_offset = 0, e_size = 0, e_compressed_size = 0, e_compressed = 0\<rparr>],
      b_raw = [0x61, 0, 0x62, 0, 0x63, 0, 0x64, 0, 0x65, 0] @ replicate 340 0\<rparr>"

section \<open>The parser, step by step\<close>

lemma read_seek:
  "read n (seek q f) = (take n (drop q (content f)), f\<lparr>pos := q + min (length (content f) - q) n\<rparr>)"
  by (simp add: read_def seek_def Let_def)

lemma take_drop_take: "k + m \<le> n \<Longrightarrow> take m (drop k (take n xs)) = take m (drop k xs)"
  by (simp add: drop_take min_def)

lemma unpack_I_seek:
  assumes "0 < n"
  shows "unpack_I n (p\<lparr>file' := seek q f\<rparr>) =
     (if length (content f) < q + 4 * n then Inl StructError
      else Inr (map (\<lambda>k. u32_at (endianness p) (content f) (q + 4 * k)) [0..<n],
                p\<lparr>file' := f\<lparr>pos := q + 4 * n\<rparr>\<rparr>))"
proof -
  let ?bs = "content f"
  have len: "length (take (4 * n) (drop q ?bs)) < 4 * n \<longleftrightarrow> length ?bs < q + 4 * n"
    using assms by auto
  have fields: "map (\<lambda>k. decode_uint (endianness p) (take 4 (drop (4 * k) (take (4 * n) (drop q ?bs))))) [0..<n]
      = map (\<lambda>k. u32_at (endianness p) ?bs (q + 4 * k)) [0..<n]"
    by (rule map_cong) (auto simp: u32_at_def take_drop_take add.commute)
  show ?thesis
    using len fields
    by (simp add: unpack_I_def read_seek unpack_from_I_def calcsize_I_def min_def)
qed

lemma unpack_s_seek:
  assumes "0 < n"
  shows "unpack_s n (p\<lparr>file' := seek q f\<rparr>) =
     (if length (content f) < q + n then Inl StructError
      else Inr (take n (drop q (content f)), p\<lparr>file' := f\<lparr>pos := q + n\<rparr>\<rparr>))"
proof -
  have "length (take n (drop q (content f))) < n \<longleftrightarrow> length (content f) < q + n"
    using assms by auto
  then show ?thesis
    by (simp add: unpack_s_def read_seek unpack_from_s_def calcsize_s_def min_def)
qed

lemma unpack_H_seek:
  "unpack_H (p\<lparr>file' := seek q f\<rparr>) =
     (if length (content f) < q + 2 then Inl StructError
      else Inr (decode_uint (endianness p) (take 2 (drop q (content f))),
                p\<lparr>file' := f\<lparr>pos := q + 2\<rparr>\<rparr>))"
proof -
  have "length (take 2 (drop q (content f))) < 2 \<longleftrightarrow> length (content f) < q + 2"
    by auto
  then show ?thesis
    by (simp add: unpack_H_def read_seek unpack_from_H_def calcsize_H_def min_def)
qed

lemma upt_5: "[0..<5] = [0, 1, 2, 3, 4]"
  by (simp add: upt_rec)

lemma upt_7: "[0..<7] = [0, 1, 2, 3, 4, 5, 6]"
  by (simp add: upt_rec)

lemma parse_entry_eq:
  "parse_entry sfe sfn sod i (p, cur) =
     (if length (content (file' p)) < sfe + i * 20 + 20 then Inl StructError
      else if length (content (file' p)) < sfn + cur + 255 then Inl StructError
      else case decode (raw_name_at (content (file' p)) (sfn + cur)) of
             Inl err \<Rightarrow> Inl err
           | Inr name \<Rightarrow>
               Inr (p\<lparr>file' := (file' p)\<lparr>pos := sfn + cur + 255\<rparr>,
                      file_objects := file_objects p @
                        [entry_object (endianness p) (content (file' p)) sfe sod i name]\<rparr>,
                    cur + (length (raw_name_at (content (file' p)) (sfn + cur)) + 1)))"
proof -
  have five: "(0::nat) < 5" and n255: "(0::nat) < 255" by simp_all
  show ?thesis
    unfolding parse_entry_def size_of_file_record_def
    by (simp add: unpack_I_seek [OF five] upt_5 unpack_s_seek [OF n255]
          raw_name_at_def entry_object_def Let_def add.assoc split: sum.splits)
qed

lemma decode_eq: "decode raw = (if decodable raw then Inr (the_name raw) else Inl UnicodeDecodeError)"
  by (simp add: decode_def decodable_def the_name_def split: option.splits)

lemma for_range_append:
  "for_range body (xs @ ys) s =
     (case for_range body xs s of Inl err \<Rightarrow> Inl err | Inr s' \<Rightarrow> for_range body ys s')"
  by (induction xs arbitrary: s) (auto split: sum.splits)

lemma parse_entry_step:
  assumes "content (file' p) = bs" and "endianness p = e" and "cur = name_cursor bs sfn i"
  shows "parse_entry sfe sfn sod i (p, cur) =
     (if step_ok bs sfe sfn i
      then Inr (p\<lparr>file' := (file' p)\<lparr>pos := sfn + cur + 255\<rparr>,
                  file_objects := file_objects p @ [object_at e bs sfe sfn sod i]\<rparr>,
                name_cursor bs sfn (Suc i))
      else Inl (step_error bs sfe sfn i))"
  using assms
  by (auto simp: parse_entry_eq decode_eq step_ok_def step_error_def entry_ok_def name_ok_def
        name_at_def object_at_def)

lemma loop_char:
  assumes "content (file' p) = bs" and "endianness p = e"
  shows "case for_range (parse_entry sfe sfn sod) [0..<n] (p, 0) of
           Inr (p', cur) \<Rightarrow>
             content (file' p') = bs \<and> endianness p' = e \<and> cur = name_cursor bs sfn n \<and>
             file_objects p' = file_objects p @ map (object_at e bs sfe sfn sod) [0..<n] \<and>
             (\<forall>i<n. step_ok bs sfe sfn i)
         | Inl err \<Rightarrow>
             \<exists>j<n. (\<forall>i<j. step_ok bs sfe sfn i) \<and> \<not> step_ok bs sfe sfn j \<and>
                   err = step_error bs sfe sfn j"
proof (induction n)
  case 0
  show ?case using assms by simp
next
  case (Suc n)
  show ?case
  proof (cases "for_range (parse_entry sfe sfn sod) [0..<n] (p, 0)")
    case (Inl err)
    with Suc obtain j where "j < n" "\<forall>i<j. step_ok bs sfe sfn i" "\<not> step_ok bs sfe sfn j"
      "err = step_error bs sfe sfn j" by auto
    then have "\<exists>j<Suc n. (\<forall>i<j. step_ok bs sfe sfn i) \<and> \<not> step_ok bs sfe sfn j \<and>
                   err = step_error bs sfe sfn j"
      using less_Suc_eq by blast
    with Inl show ?thesis by (simp add: for_range_append)
  next
    case (Inr s)
    obtain p' cur where s: "s = (p', cur)" by (cases s)
    from Suc Inr s have inv: "content (file' p') = bs" "endianness p' = e"
      "cur = name_cursor bs sfn n"
      "file_objects p' = file_objects p @ map (object_at e bs sfe sfn sod) [0..<n]"
      "\<forall>i<n. step_ok bs sfe sfn i" by auto
    note step = parse_entry_step [OF inv(1) inv(2) inv(3), of sfe sod]
    show ?thesis
    proof (cases "step_ok bs sfe sfn n")
      case True
      with inv(5) have "\<forall>i<Suc n. step_ok bs sfe sfn i" using less_Suc_eq by auto
      with True Inr s step inv show ?thesis
        by (simp add: for_range_append)
    next
      case False
      with Inr s step inv show ?thesis
        by (auto simp: for_range_append)
    qed
  qed
qed

lemma parse_files_v1_eq:
  "parse_files_v1 p =
     (if length (content (file' p)) < 40 then Inl StructError
      else case for_range
                  (parse_entry (header_field (endianness p) (content (file' p)) 0)
                     (header_field (endianness p) (content (file' p)) 1)
                     (header_field (endianness p) (content (file' p)) 2))
                  [0..<num_files (endianness p) (content (file' p))]
                  (p\<lparr>file' := (file' p)\<lparr>pos := header_field (endianness p) (content (file' p)) 0\<rparr>\<rparr>, 0) of
             Inl err \<Rightarrow> Inl err
           | Inr (p3, c) \<Rightarrow> Inr p3)"
proof -
  have seven: "(0::nat) < 7" by simp
  show ?thesis
    unfolding parse_files_v1_def size_of_file_record_def
    apply (simp add: unpack_I_seek [OF seven] upt_7 header_field_def num_files_def Let_def)
    apply (simp add: seek_def)
    done
qed

lemma parse_files_eq:
  "parse_files p =
     (if length (content (file' p)) < 8 then Inl StructError
      else if 16320 \<le> version_field (endianness p) (content (file' p))
      then Inl (ValueError ''Post-Full Throttle file format no supported'')
      else parse_files_v1 (p\<lparr>file' := (file' p)\<lparr>pos := 8\<rparr>\<rparr>))"
  unfolding parse_files_def
  by (simp add: unpack_H_seek version_field_def)

lemma init_eq:
  "LPAKParser_init (open_rb bs) =
     (if length bs < 4 then Inl StructError
      else case magic_endianness bs of
             None \<Rightarrow> Inl (ValueError ''Not a LPAK file'')
           | Some e \<Rightarrow> parse_files \<lparr>file' = \<lparr>content = bs, pos = 4\<rparr>, endianness = e, file_objects = []\<rparr>)"
proof (cases "length bs < 4")
  case True
  then show ?thesis
    by (simp add: LPAKParser_init_def read_def open_rb_def unpack_from_s_def calcsize_s_def Let_def)
next
  case False
  then have "min (length bs) 4 = 4" by simp
  with False show ?thesis
    by (simp add: LPAKParser_init_def read_def open_rb_def unpack_from_s_def calcsize_s_def
          magic_endianness_def Let_def)
qed

lemma loop_success:
  assumes "content (file' p) = bs" and "endianness p = e"
    and "\<forall>i<n. step_ok bs sfe sfn i"
  shows "\<exists>p' cur. for_range (parse_entry sfe sfn sod) [0..<n] (p, 0) = Inr (p', cur) \<and>
           content (file' p') = bs \<and> endianness p' = e \<and>
           file_objects p' = file_objects p @ map (object_at e bs sfe sfn sod) [0..<n]"
  using loop_char [OF assms(1,2), where sfe = sfe and sfn = sfn and sod = sod and n = n] assms(3)
  by (cases "for_range (parse_entry sfe sfn sod) [0..<n] (p, 0)") auto

lemma loop_failure:
  assumes "content (file' p) = bs" and "endianness p = e"
    and "j < n" and "\<forall>i<j. step_ok bs sfe sfn i" and "\<not> step_ok bs sfe sfn j"
  shows "for_range (parse_entry sfe sfn sod) [0..<n] (p, 0) = Inl (step_error bs sfe sfn j)"
proof (cases "for_range (parse_entry sfe sfn sod) [0..<n] (p, 0)")
  case (Inl err)
  with loop_char [OF assms(1,2), where sfe = sfe and sfn = sfn and sod = sod and n = n]
  obtain k where k: "k < n" "\<forall>i<k. step_ok bs sfe sfn i" "\<not> step_ok bs sfe sfn k"
    "err = step_error bs sfe sfn k" by auto
  have "k = j"
    using k(2,3) assms(4,5) by (meson linorder_neqE_nat)
  with Inl k(4) show ?thesis by simp
next
  case (Inr s)
  with loop_char [OF assms(1,2), where sfe = sfe and sfn = sfn and sod = sod and n = n] assms(3,5) show ?thesis
    by (cases s) auto
qed

lemma v1_success:
  assumes "content (file' p) = bs" and "endianness p = e" and "file_objects p = []"
    and "40 \<le> length bs" and "steps_ok e bs (num_files e bs)"
  shows "\<exists>p'. parse_files_v1 p = Inr p' \<and> content (file' p') = bs \<and> endianness p' = e \<and>
           file_objects p' = records_of e bs"
proof -
  let ?p = "p\<lparr>file' := (file' p)\<lparr>pos := header_field e bs 0\<rparr>\<rparr>"
  have "content (file' ?p) = bs" "endianness ?p = e" using assms by simp_all
  from loop_success [OF this, where n = "num_files e bs" and sfe = "header_field e bs 0"
      and sfn = "header_field e bs 1" and sod = "header_field e bs 2"] assms
  show ?thesis
    by (auto simp: parse_files_v1_eq steps_ok_def records_of_def)
qed

lemma v1_failure:
  assumes "content (file' p) = bs" and "endianness p = e"
    and "40 \<le> length bs" and "j < num_files e bs" and "steps_ok e bs j"
    and "\<not> step_ok bs (header_field e bs 0) (header_field e bs 1) j"
  shows "parse_files_v1 p = Inl (step_error bs (header_field e bs 0) (header_field e bs 1) j)"
proof -
  let ?p = "p\<lparr>file' := (file' p)\<lparr>pos := header_field e bs 0\<rparr>\<rparr>"
  have "content (file' ?p) = bs" "endianness ?p = e" using assms by simp_all
  from loop_failure [OF this assms(4), where sfe = "header_field e bs 0"
      and sfn = "header_field e bs 1" and sod = "header_field e bs 2"] assms
  show ?thesis
    by (auto simp: parse_files_v1_eq steps_ok_def)
qed

lemma v1_Inr:
  assumes "content (file' p) = bs" and "endianness p = e" and "file_objects p = []"
    and "parse_files_v1 p = Inr p'"
  shows "40 \<le> length bs \<and> steps_ok e bs (num_files e bs) \<and> content (file' p') = bs \<and>
         endianness p' = e \<and> file_objects p' = records_of e bs"
proof -
  let ?p = "p\<lparr>file' := (file' p)\<lparr>pos := header_field e bs 0\<rparr>\<rparr>"
  have "content (file' ?p) = bs" "endianness ?p = e" using assms by simp_all
  from loop_char [OF this, where n = "num_files e bs" and sfe = "header_field e bs 0"
      and sfn = "header_field e bs 1" and sod = "header_field e bs 2"] assms
  show ?thesis
    by (auto simp: parse_files_v1_eq steps_ok_def records_of_def split: if_splits sum.splits)
qed

lemma v1_Inl:
  assumes "content (file' p) = bs" and "endianness p = e"
    and "parse_files_v1 p = Inl err"
  shows "err = StructError \<or> err = UnicodeDecodeError"
proof -
  let ?p = "p\<lparr>file' := (file' p)\<lparr>pos := header_field e bs 0\<rparr>\<rparr>"
  have "content (file' ?p) = bs" "endianness ?p = e" using assms by simp_all
  from loop_char [OF this, where n = "num_files e bs" and sfe = "header_field e bs 0"
      and sfn = "header_field e bs 1" and sod = "header_field e bs 2"] assms
  show ?thesis
    by (auto simp: parse_files_v1_eq step_error_def split: if_splits sum.splits)
qed

lemma init_Inr:
  assumes "LPAKParser_init (open_rb bs) = Inr p"
  shows "magic_endianness bs = Some (endianness p) \<and> content (file' p) = bs \<and>
         40 \<le> length bs \<and> version_field (endianness p) bs < 16320 \<and>
         steps_ok (endianness p) bs (num_files (endianness p) bs) \<and>
         file_objects p = records_of (endianness p) bs"
proof -
  from assms obtain e where e: "magic_endianness bs = Some e" and len4: "4 \<le> length bs"
    and pf: "parse_files \<lparr>file' = \<lparr>content = bs, pos = 4\<rparr>, endianness = e, file_objects = []\<rparr> = Inr p"
    by (auto simp: init_eq split: if_splits option.splits)
  let ?p1 = "\<lparr>file' = \<lparr>content = bs, pos = 8\<rparr>, endianness = e, file_objects = []\<rparr>"
  from pf have v: "version_field e bs < 16320" and v1: "parse_files_v1 ?p1 = Inr p"
    by (auto simp: parse_files_eq split: if_splits)
  have "content (file' ?p1) = bs" "endianness ?p1 = e" "file_objects ?p1 = []" by simp_all
  from v1_Inr [OF this v1] e v show ?thesis by simp
qed

lemma init_success:
  assumes "magic_endianness bs = Some e" and "40 \<le> length bs" and "version_field e bs < 16320"
    and "steps_ok e bs (num_files e bs)"
  shows "\<exists>p. LPAKParser_init (open_rb bs) = Inr p \<and> endianness p = e \<and>
           file_objects p = records_of e bs"
proof -
  let ?p1 = "\<lparr>file' = \<lparr>content = bs, pos = 8\<rparr>, endianness = e, file_objects = []\<rparr>"
  have "content (file' ?p1) = bs" "endianness ?p1 = e" "file_objects ?p1 = []" by simp_all
  from v1_success [OF this assms(2,4)] assms(1,2,3) show ?thesis
    by (auto simp: init_eq parse_files_eq)
qed

lemma init_step_failure:
  assumes "magic_endianness bs = Some e" and "40 \<le> length bs" and "version_field e bs < 16320"
    and "j < num_files e bs" and "steps_ok e bs j"
    and "\<not> step_ok bs (header_field e bs 0) (header_field e bs 1) j"
  shows "LPAKParser_init (open_rb bs) =
           Inl (step_error bs (header_field e bs 0) (header_field e bs 1) j)"
proof -
  let ?p1 = "\<lparr>file' = \<lparr>content = bs, pos = 8\<rparr>, endianness = e, file_objects = []\<rparr>"
  have "content (file' ?p1) = bs" "endianness ?p1 = e" by simp_all
  from v1_failure [OF this assms(2,4,5,6)] assms(1,2,3) show ?thesis
    by (auto simp: init_eq parse_files_eq)
qed

lemma records_of_length: "length (records_of e bs) = num_files e bs"
  by (simp add: records_of_def)

lemma records_of_nth:
  "i < num_files e bs \<Longrightarrow>
   records_of e bs ! i =
     object_at e bs (header_field e bs 0) (header_field e bs 1) (header_field e bs 2) i"
  by (simp add: records_of_def)

lemma LPAK_neq_KAPL: "LPAK \<noteq> KAPL"
  by (simp add: LPAK_def KAPL_def)

lemma magic_length: "magic_endianness bs = Some e \<Longrightarrow> 4 \<le> length bs"
proof -
  assume "magic_endianness bs = Some e"
  then have "take 4 bs = LPAK \<or> take 4 bs = KAPL"
    by (auto simp: magic_endianness_def split: if_splits)
  then have "length (take 4 bs) = 4"
    by (auto simp: LPAK_def KAPL_def simp del: length_take)
  then show ?thesis by simp
qed

lemma be_uint_snoc: "be_uint (xs @ [b]) = be_uint xs * 256 + unat b"
  by (simp add: be_uint_def)

lemma unat_byte_less: "unat (b :: byte) < 256"
  using unsigned_less [of b, where 'a = nat] by simp

lemma be_uint_bound: "be_uint xs < 256 ^ length xs"
proof (induction xs rule: rev_induct)
  case Nil
  show ?case by (simp add: be_uint_def)
next
  case (snoc b xs)
  have "be_uint xs * 256 + unat b < (be_uint xs + 1) * 256"
    using unat_byte_less [of b] by simp
  also have "\<dots> \<le> 256 ^ length xs * 256"
    using snoc by (intro mult_right_mono) simp_all
  finally show ?case by (simp add: be_uint_snoc)
qed

lemma decode_uint_bound: "decode_uint e xs < 256 ^ length xs"
  using be_uint_bound [of xs] be_uint_bound [of "rev xs"]
  by (cases e) (simp_all add: decode_uint_def)

lemma version_field_short:
  assumes "length bs < 8"
  shows "version_field e bs < 16320"
proof -
  have "length (take 2 (drop 6 bs)) \<le> 1" using assms by simp
  then have "(256::nat) ^ length (take 2 (drop 6 bs)) \<le> 256 ^ 1"
    by (intro power_increasing) simp_all
  with decode_uint_bound [of e "take 2 (drop 6 bs)"] show ?thesis
    by (simp add: version_field_def)
qed

section \<open>Evaluating the example bundle\<close>

lemma length_be_bytes: "length (be_bytes w v) = w"
  by (induction w arbitrary: v) simp_all

lemma length_pack_uint: "length (pack_uint e w v) = w"
  by (cases e) (simp_all add: pack_uint_def length_be_bytes)

lemma length_enc16: "length (enc16 e x) = 2"
  by (simp add: enc16_def length_pack_uint)

lemma length_enc32: "length (enc32 e x) = 4"
  by (simp add: enc32_def length_pack_uint)

lemma name_cursor_numeral:
  "name_cursor bs sfn (numeral k) =
     name_cursor bs sfn (pred_numeral k) +
       (length (raw_name_at bs (sfn + name_cursor bs sfn (pred_numeral k))) + 1)"
  by (simp add: numeral_eq_Suc)

lemma ex_length: "length (example_bundle n1 n2 n3 k) = 115 + k"
  by (simp add: example_bundle_def LPAK_def length_enc32)

lemma ex_magic: "magic_endianness (example_bundle n1 n2 n3 k) = Some Big"
  by (simp add: magic_endianness_def example_bundle_def LPAK_def)

lemma ex_version: "version_field Big (example_bundle n1 n2 n3 k) = 1"
  by (simp add: version_field_def example_bundle_def LPAK_def decode_uint_def be_uint_def)

lemma ex_header:
  "header_field Big (example_bundle n1 n2 n3 k) 0 = 40"
  "header_field Big (example_bundle n1 n2 n3 k) (Suc 0) = 100"
  "header_field Big (example_bundle n1 n2 n3 k) 2 = 256"
  "header_field Big (example_bundle n1 n2 n3 k) 4 = 65"
  by (simp_all add: header_field_def u32_at_def example_bundle_def LPAK_def decode_uint_def be_uint_def)

lemma ex_names_drop:
  "drop 100 (example_bundle n1 n2 n3 k) =
     [0x61, 0x2E, 0x74, 0x78, 0x74, 0, 0x62, 0x62, 0x2E, 0x74, 0x78, 0x74, 0, 0x63, 0] @
     replicate k 0"
  by (simp add: example_bundle_def LPAK_def length_enc32)

lemma steps_ok_0: "steps_ok e bs 0"
  by (simp add: steps_ok_def)

lemma steps_ok_Suc:
  "steps_ok e bs (Suc j) =
     (steps_ok e bs j \<and> step_ok bs (header_field e bs 0) (header_field e bs 1) j)"
  by (auto simp: steps_ok_def less_Suc_eq)

lemma steps_ok_numeral:
  "steps_ok e bs (numeral k) =
     (steps_ok e bs (pred_numeral k) \<and>
      step_ok bs (header_field e bs 0) (header_field e bs 1) (pred_numeral k))"
  using steps_ok_Suc [of e bs "pred_numeral k"] by (simp add: numeral_eq_Suc)

lemma raw_name_at_add:
  "raw_name_at bs (q + c) = takeWhile (\<lambda>b. b \<noteq> 0) (take 255 (drop c (drop q bs)))"
  by (simp add: raw_name_at_def add.commute)

lemma ex_raw:
  "raw_name_at (example_bundle n1 n2 n3 k) 100 = [0x61, 0x2E, 0x74, 0x78, 0x74]"
  "raw_name_at (example_bundle n1 n2 n3 k) 106 = [0x62, 0x62, 0x2E, 0x74, 0x78, 0x74]"
  "raw_name_at (example_bundle n1 n2 n3 k) 113 = [0x63]"
  using raw_name_at_add [of "example_bundle n1 n2 n3 k" 100 0]
    raw_name_at_add [of "example_bundle n1 n2 n3 k" 100 6]
    raw_name_at_add [of "example_bundle n1 n2 n3 k" 100 13]
  by (simp_all add: ex_names_drop)

lemma ex_cursor:
  "name_cursor (example_bundle n1 n2 n3 k) 100 (Suc 0) = 6"
  "name_cursor (example_bundle n1 n2 n3 k) 100 2 = 13"
  "name_cursor (example_bundle n1 n2 n3 k) 100 3 = 15"
proof -
  show c1: "name_cursor (example_bundle n1 n2 n3 k) 100 (Suc 0) = 6"
    by (simp add: ex_raw)
  show c2: "name_cursor (example_bundle n1 n2 n3 k) 100 2 = 13"
    by (simp add: name_cursor_numeral c1 ex_raw)
  show "name_cursor (example_bundle n1 n2 n3 k) 100 3 = 15"
    by (simp add: name_cursor_numeral c2 ex_raw)
qed

lemma ex_names:
  "name_at (example_bundle n1 n2 n3 k) 100 0 = [0x61, 0x2E, 0x74, 0x78, 0x74]"
  "name_at (example_bundle n1 n2 n3 k) 100 (Suc 0) = [0x62, 0x62, 0x2E, 0x74, 0x78, 0x74]"
  "name_at (example_bundle n1 n2 n3 k) 100 2 = [0x63]"
  by (simp_all add: name_at_def ex_cursor ex_raw)

lemma ex_steps: "253 \<le> k \<Longrightarrow> steps_ok Big (example_bundle n1 n2 n3 k) 3"
  by (simp add: steps_ok_numeral steps_ok_Suc steps_ok_0 ex_header step_ok_def entry_ok_def
        name_ok_def ex_length ex_cursor ex_raw ex_names decodable_def)

lemma ex_num_files: "num_files Big (example_bundle n1 n2 n3 k) = 3"
  by (simp add: num_files_def ex_header)

lemma ex_parse:
  "253 \<le> k \<Longrightarrow> \<exists>p. LPAKParser_init (open_rb (example_bundle n1 n2 n3 k)) = Inr p \<and> endianness p = Big \<and>
       file_objects p = records_of Big (example_bundle n1 n2 n3 k)"
  by (rule init_success) (simp_all add: ex_magic ex_length ex_version ex_num_files ex_steps)

lemma ex_the_names:
  "the_name [0x61, 0x2E, 0x74, 0x78, 0x74] = map of_char ''a.txt''"
  "the_name [0x62, 0x62, 0x2E, 0x74, 0x78, 0x74] = map of_char ''bb.txt''"
  "the_name [0x63] = map of_char ''c''"
  by (simp_all add: the_name_def)

lemma ex_entries:
  "u32_at Big (example_bundle n1 n2 n3 k) 40 = 5"
  "u32_at Big (example_bundle n1 n2 n3 k) 48 = 3"
  "u32_at Big (example_bundle n1 n2 n3 k) 52 = 3"
  "u32_at Big (example_bundle n1 n2 n3 k) 56 = 0"
  "u32_at Big (example_bundle n1 n2 n3 k) 60 = 9"
  "u32_at Big (example_bundle n1 n2 n3 k) 68 = 4"
  "u32_at Big (example_bundle n1 n2 n3 k) 72 = 2"
  "u32_at Big (example_bundle n1 n2 n3 k) 76 = 1"
  "u32_at Big (example_bundle n1 n2 n3 k) 80 = 256"
  "u32_at Big (example_bundle n1 n2 n3 k) 88 = 1"
  "u32_at Big (example_bundle n1 n2 n3 k) 92 = 1"
  "u32_at Big (example_bundle n1 n2 n3 k) 96 = 0"
  by (simp_all add: u32_at_def example_bundle_def LPAK_def length_enc32 decode_uint_def be_uint_def)

lemma upt_3: "[0..<3] = [0, Suc 0, 2]"
  by (simp add: upt_rec)

lemma ex_records:
  "records_of Big (example_bundle n1 n2 n3 k) =
     [\<lparr>offset = 261, size_f = 3, compressed_size = 3, compressed = False,
        filename = map of_char ''a.txt''\<rparr>,
      \<lparr>offset = 265, size_f = 4, compressed_size = 2, compressed = True,
        filename = map of_char ''bb.txt''\<rparr>,
      \<lparr>offset = 512, size_f = 1, compressed_size = 1, compressed = False,
        filename = map of_char ''c''\<rparr>]"
  by (simp add: records_of_def ex_num_files upt_3 object_at_def entry_object_def ex_header
        ex_entries ex_names ex_the_names)

lemma map_Inr_eq:
  assumes "map (\<lambda>r. Inr (f r) :: 'e + 'b) xs = map Inr ys"
  shows "map f xs = ys"
proof -
  have "map (Inr :: 'b \<Rightarrow> 'e + 'b) (map f xs) = map Inr ys"
    using assms by (simp add: comp_def)
  moreover have "inj (Inr :: 'b \<Rightarrow> 'e + 'b)" by (rule inj_Inr)
  ultimately show ?thesis by (simp only: inj_map_eq_map)
qed

section \<open>Evaluating the other bundles\<close>

lemma tr_length: "length truncated_bundle = 390"
  by (simp add: truncated_bundle_def LPAK_def)

lemma tr_magic: "magic_endianness truncated_bundle = Some Big"
  by (simp add: magic_endianness_def truncated_bundle_def LPAK_def)

lemma tr_version: "version_field Big truncated_bundle = 1"
  by (simp add: version_field_def truncated_bundle_def LPAK_def decode_uint_def be_uint_def)

lemma tr_header:
  "header_field Big truncated_bundle 0 = 300"
  "header_field Big truncated_bundle (Suc 0) = 40"
  "header_field Big truncated_bundle 4 = 100"
  by (simp_all add: header_field_def u32_at_def truncated_bundle_def LPAK_def decode_uint_def
        be_uint_def)

lemma tr_names_drop:
  "drop 40 truncated_bundle =
     [0x61, 0, 0x62, 0, 0x63, 0, 0x64, 0, 0x65, 0] @ replicate 250 0 @ replicate 90 0"
  by (simp add: truncated_bundle_def LPAK_def)

lemma tr_raw:
  "raw_name_at truncated_bundle 40 = [0x61]"
  "raw_name_at truncated_bundle 42 = [0x62]"
  "raw_name_at truncated_bundle 44 = [0x63]"
  "raw_name_at truncated_bundle 46 = [0x64]"
  using raw_name_at_add [of truncated_bundle 40 0] raw_name_at_add [of truncated_bundle 40 2]
    raw_name_at_add [of truncated_bundle 40 4] raw_name_at_add [of truncated_bundle 40 6]
  by (simp_all add: tr_names_drop)

lemma tr_cursor:
  "name_cursor truncated_bundle 40 (Suc 0) = 2"
  "name_cursor truncated_bundle 40 2 = 4"
  "name_cursor truncated_bundle 40 3 = 6"
  "name_cursor truncated_bundle 40 4 = 8"
proof -
  show c1: "name_cursor truncated_bundle 40 (Suc 0) = 2"
    by (simp add: tr_raw)
  show c2: "name_cursor truncated_bundle 40 2 = 4"
    by (simp add: name_cursor_numeral c1 tr_raw)
  show c3: "name_cursor truncated_bundle 40 3 = 6"
    by (simp add: name_cursor_numeral c2 tr_raw)
  show "name_cursor truncated_bundle 40 4 = 8"
    by (simp add: name_cursor_numeral c3 tr_raw)
qed

lemma tr_steps: "steps_ok Big truncated_bundle 4"
  by (simp add: steps_ok_numeral steps_ok_Suc steps_ok_0 tr_header step_ok_def entry_ok_def
        name_ok_def name_at_def tr_length tr_cursor tr_raw decodable_def)

lemma bad_length: "length bad_name_bundle = 316"
  by (simp add: bad_name_bundle_def LPAK_def)

lemma bad_magic: "magic_endianness bad_name_bundle = Some Big"
  by (simp add: magic_endianness_def bad_name_bundle_def LPAK_def)

lemma bad_version: "version_field Big bad_name_bundle = 1"
  by (simp add: version_field_def bad_name_bundle_def LPAK_def decode_uint_def be_uint_def)

lemma bad_header:
  "header_field Big bad_name_bundle 0 = 40"
  "header_field Big bad_name_bundle (Suc 0) = 60"
  "header_field Big bad_name_bundle 4 = 20"
  by (simp_all add: header_field_def u32_at_def bad_name_bundle_def LPAK_def decode_uint_def
        be_uint_def)

lemma bad_raw: "raw_name_at bad_name_bundle 60 = [0xC3, 0x28]"
  by (simp add: raw_name_at_def bad_name_bundle_def LPAK_def)

section \<open>The two encodings of a bundle\<close>

lemma be_uint_be_bytes: "v < 256 ^ w \<Longrightarrow> be_uint (be_bytes w v) = v"
proof (induction w arbitrary: v)
  case 0
  then show ?case by (simp add: be_uint_def)
next
  case (Suc w)
  from Suc.prems have "v div 256 < 256 ^ w"
    by (simp add: less_mult_imp_div_less mult.commute)
  from Suc.IH [OF this] show ?case
    by (simp add: be_uint_snoc unat_of_nat)
qed

lemma decode_pack: "v < 256 ^ w \<Longrightarrow> decode_uint e (pack_uint e w v) = v"
  by (cases e) (simp_all add: decode_uint_def pack_uint_def be_uint_be_bytes)

lemma decode_enc32: "decode_uint e (enc32 e x) = unat x"
proof -
  have "unat x < 2 ^ 32" using unsigned_less [of x, where 'a = nat] by simp
  then have "unat x < 256 ^ 4" by simp
  then show ?thesis unfolding enc32_def by (rule decode_pack)
qed

lemma decode_enc16: "decode_uint e (enc16 e x) = unat x"
proof -
  have "unat x < 2 ^ 16" using unsigned_less [of x, where 'a = nat] by simp
  then have "unat x < 256 ^ 2" by simp
  then show ?thesis unfolding enc16_def by (rule decode_pack)
qed

lemma chunks_length:
  "(\<forall>x\<in>set xs. length (f x) = m) \<Longrightarrow> length (concat (map f xs)) = m * length xs"
  by (induction xs) simp_all

lemma chunks_drop:
  "(\<forall>x\<in>set xs. length (f x) = m) \<Longrightarrow>
   drop (m * i) (concat (map f xs)) = concat (map f (drop i xs))"
proof (induction xs arbitrary: i)
  case Nil
  then show ?case by simp
next
  case (Cons x xs)
  show ?case
  proof (cases i)
    case 0
    then show ?thesis by simp
  next
    case (Suc k)
    with Cons show ?thesis by simp
  qed
qed

lemma chunks_nth:
  assumes "\<forall>x\<in>set xs. length (f x) = m" and "i < length xs"
  shows "take m (drop (m * i) (concat (map f xs) @ ys)) = f (xs ! i)"
proof -
  have "length (concat (map f xs)) = m * length xs"
    using assms(1) by (rule chunks_length)
  moreover have "m * i \<le> m * length xs"
    using assms(2) by simp
  ultimately have "m * i \<le> length (concat (map f xs))"
    by simp
  then have "drop (m * i) (concat (map f xs) @ ys) = drop (m * i) (concat (map f xs)) @ ys"
    by simp
  also have "\<dots> = concat (map f (drop i xs)) @ ys"
    using assms(1) by (simp add: chunks_drop)
  also have "drop i xs = xs ! i # drop (Suc i) xs"
    using assms(2) by (simp add: Cons_nth_drop_Suc)
  finally show ?thesis using assms by (simp add: nth_mem)
qed

lemma length_magic: "length (magic e) = 4"
  by (cases e) (simp_all add: magic_def LPAK_def KAPL_def)

lemma length_enc_entry: "length (enc_entry e x) = 20"
proof -
  have "length (concat (map (enc32 e) (entry_fields x))) = 4 * length (entry_fields x)"
    by (rule chunks_length) (simp add: length_enc32)
  then show ?thesis by (simp add: enc_entry_def entry_fields_def)
qed

lemma length_header_fields: "length (header_fields b) = 7"
  by (simp add: header_fields_def)

lemma length_enc_header: "length (concat (map (enc32 e) (header_fields b))) = 28"
proof -
  have "length (concat (map (enc32 e) (header_fields b))) = 4 * length (header_fields b)"
    by (rule chunks_length) (simp add: length_enc32)
  then show ?thesis by (simp add: length_header_fields)
qed

lemma length_enc_entries:
  "length (concat (map (enc_entry e) xs)) = 20 * length xs"
  by (rule chunks_length) (simp add: length_enc_entry)

lemma length_lay:
  "a \<le> length ys \<Longrightarrow> length (lay a xs ys) = a + length xs + (length ys - (a + length xs))"
  by (simp add: lay_def)

lemma encode_length:
  assumes "entries_at b \<le> 40 + length (b_raw b)"
  shows "length (encode e b) =
     40 + ((entries_at b - 40) + 20 * length (b_entries b) +
           (length (b_raw b) - ((entries_at b - 40) + 20 * length (b_entries b))))"
proof -
  from assms have "entries_at b - 40 \<le> length (b_raw b)" by simp
  then show ?thesis
    by (simp add: encode_def length_magic length_enc16 length_enc32 length_enc_header
        length_lay length_enc_entries)
qed

lemma encode_take_4: "take 4 (encode e b) = magic e"
  by (simp add: encode_def length_magic)

lemma encode_magic: "magic_endianness (encode e b) = Some e"
  using LPAK_neq_KAPL
  by (cases e) (auto simp: magic_endianness_def encode_take_4 magic_def)

lemma encode_version: "version_field e (encode e b) = unat (b_version b)"
proof -
  have "take 2 (drop 6 (encode e b)) = enc16 e (b_version b)"
    by (simp add: encode_def length_magic length_enc16)
  then show ?thesis by (simp add: version_field_def decode_enc16)
qed

lemma encode_drop_12:
  "drop 12 (encode e b) =
     concat (map (enc32 e) (header_fields b)) @
     lay (entries_at b - 40) (concat (map (enc_entry e) (b_entries b))) (b_raw b)"
  by (simp add: encode_def length_magic length_enc16 length_enc32)

lemma encode_drop_40:
  "drop 40 (encode e b) =
     lay (entries_at b - 40) (concat (map (enc_entry e) (b_entries b))) (b_raw b)"
proof -
  have "drop 40 (encode e b) = drop 28 (drop 12 (encode e b))" by simp
  then show ?thesis by (simp add: encode_drop_12 length_enc_header)
qed

lemma encode_header_field:
  assumes "k < 7"
  shows "header_field e (encode e b) k = unat (header_fields b ! k)"
proof -
  have "take 4 (drop (12 + 4 * k) (encode e b)) = take 4 (drop (4 * k) (drop 12 (encode e b)))"
    by (simp add: add.commute)
  also have "\<dots> = enc32 e (header_fields b ! k)"
    unfolding encode_drop_12
    by (rule chunks_nth) (simp_all add: length_enc32 length_header_fields assms)
  finally show ?thesis by (simp add: header_field_def u32_at_def decode_enc32)
qed

lemma header_fields_nth:
  "header_fields b ! 0 = b_start_of_file_entries b"
  "header_fields b ! 1 = b_start_of_file_names b"
  "header_fields b ! 2 = b_start_of_data b"
  "header_fields b ! 4 = b_size_of_file_entries b"
  by (simp_all add: header_fields_def)

lemma encode_header:
  "header_field e (encode e b) 0 = entries_at b"
  "header_field e (encode e b) 1 = names_at b"
  "header_field e (encode e b) 2 = unat (b_start_of_data b)"
  "num_files e (encode e b) = announced b"
proof -
  have seven: "(0::nat) < 7" "(1::nat) < 7" "(2::nat) < 7" "(4::nat) < 7" by simp_all
  show "header_field e (encode e b) 0 = entries_at b"
    by (simp only: encode_header_field [OF seven(1)] header_fields_nth entries_at_def)
  show "header_field e (encode e b) 1 = names_at b"
    by (simp only: encode_header_field [OF seven(2)] header_fields_nth names_at_def)
  show "header_field e (encode e b) 2 = unat (b_start_of_data b)"
    by (simp only: encode_header_field [OF seven(3)] header_fields_nth)
  show "num_files e (encode e b) = announced b"
    by (simp only: num_files_def encode_header_field [OF seven(4)] header_fields_nth announced_def)
qed

lemma encode_drop_entries:
  assumes "40 \<le> entries_at b" and "entries_at b \<le> 40 + length (b_raw b)"
  shows "drop (entries_at b) (encode e b) =
     concat (map (enc_entry e) (b_entries b)) @
     drop (entries_at b - 40 + 20 * length (b_entries b)) (b_raw b)"
proof -
  from assms have a: "entries_at b - 40 \<le> length (b_raw b)" by simp
  have "drop (entries_at b) (encode e b) = drop (entries_at b - 40) (drop 40 (encode e b))"
    using assms(1) by simp
  also have "\<dots> = concat (map (enc_entry e) (b_entries b)) @
     drop (entries_at b - 40 + 20 * length (b_entries b)) (b_raw b)"
    using a by (simp add: encode_drop_40 lay_def length_enc_entries)
  finally show ?thesis .
qed

lemma encode_entry_bytes:
  assumes "40 \<le> entries_at b" and "entries_at b \<le> 40 + length (b_raw b)"
    and "i < length (b_entries b)"
  shows "take 20 (drop (entries_at b + 20 * i) (encode e b)) = enc_entry e (b_entries b ! i)"
proof -
  have "take 20 (drop (entries_at b + 20 * i) (encode e b)) =
        take 20 (drop (20 * i) (drop (entries_at b) (encode e b)))"
    by (simp add: add.commute)
  also have "\<dots> = enc_entry e (b_entries b ! i)"
    unfolding encode_drop_entries [OF assms(1,2)]
    by (rule chunks_nth) (simp_all add: length_enc_entry assms(3))
  finally show ?thesis .
qed

lemma encode_entry_field:
  assumes "40 \<le> entries_at b" and "entries_at b \<le> 40 + length (b_raw b)"
    and "i < length (b_entries b)" and "j < 5"
  shows "u32_at e (encode e b) (entries_at b + i * 20 + 4 * j) =
           unat (entry_fields (b_entries b ! i) ! j)"
proof -
  let ?x = "b_entries b ! i"
  have "take 4 (drop (entries_at b + i * 20 + 4 * j) (encode e b)) =
        take 4 (drop (4 * j) (take 20 (drop (entries_at b + 20 * i) (encode e b))))"
    using assms(4) by (simp add: take_drop_take add.commute mult.commute)
  also have "\<dots> = take 4 (drop (4 * j) (concat (map (enc32 e) (entry_fields ?x)) @ []))"
    by (simp add: encode_entry_bytes [OF assms(1,2,3)] enc_entry_def)
  also have "\<dots> = enc32 e (entry_fields ?x ! j)"
    using assms(4) by (intro chunks_nth) (simp_all add: length_enc32 entry_fields_def)
  finally show ?thesis by (simp add: u32_at_def decode_enc32)
qed

lemma lay_nth_outside:
  assumes "a \<le> length ys" and "j < a \<or> a + length xs \<le> j" and "j < length (lay a xs ys)"
  shows "lay a xs ys ! j = ys ! j"
proof (cases "j < a")
  case True
  moreover have "length (take a ys) = a" using assms(1) by simp
  ultimately show ?thesis by (simp add: lay_def nth_append del: length_take)
next
  case False
  with assms(2) have ge: "a + length xs \<le> j" by simp
  have front: "length (take a ys @ xs) = a + length xs" using assms(1) by simp
  from assms(3) have "j < a + length xs + (length ys - (a + length xs))"
    by (simp add: length_lay [OF assms(1)])
  with ge have fits: "a + length xs \<le> length ys" by arith
  have "lay a xs ys = (take a ys @ xs) @ drop (a + length xs) ys"
    by (simp add: lay_def)
  then have "lay a xs ys ! j = drop (a + length xs) ys ! (j - (a + length xs))"
    using ge front by (simp only: nth_append) simp
  also have "\<dots> = ys ! (a + length xs + (j - (a + length xs)))"
    using fits by (rule nth_drop)
  also have "a + length xs + (j - (a + length xs)) = j" using ge by simp
  finally show ?thesis .
qed

lemma encode_nth_raw:
  assumes "40 \<le> entries_at b" and "entries_at b \<le> 40 + length (b_raw b)"
    and "40 \<le> p" and "p < entries_at b \<or> entries_end b \<le> p"
    and "p < length (encode e b)"
  shows "encode e b ! p = b_raw b ! (p - 40)"
proof -
  let ?a = "entries_at b - 40"
  let ?E = "concat (map (enc_entry e) (b_entries b))"
  from assms(2) have a: "?a \<le> length (b_raw b)" by simp
  have lenE: "length ?E = 20 * length (b_entries b)" by (rule length_enc_entries)
  have len40: "40 \<le> length (encode e b)" using assms(3,5) by simp
  have d: "drop 40 (encode e b) = lay ?a ?E (b_raw b)" by (rule encode_drop_40)
  have "encode e b ! p = encode e b ! (40 + (p - 40))" using assms(3) by simp
  also have "\<dots> = drop 40 (encode e b) ! (p - 40)"
    using len40 by (rule nth_drop [symmetric])
  also have "\<dots> = lay ?a ?E (b_raw b) ! (p - 40)" by (simp only: d)
  also have "\<dots> = b_raw b ! (p - 40)"
  proof (rule lay_nth_outside [OF a])
    show "p - 40 < ?a \<or> ?a + length ?E \<le> p - 40"
      using assms(1,3,4) by (auto simp: entries_end_def lenE)
    have "length (lay ?a ?E (b_raw b)) = length (encode e b) - 40"
      using d [symmetric] by simp
    then show "p - 40 < length (lay ?a ?E (b_raw b))"
      using assms(3,5) by simp
  qed
  finally show ?thesis .
qed

lemma segment_eq:
  assumes "length xs = length ys"
    and "\<And>p. q \<le> p \<Longrightarrow> p < q + m \<Longrightarrow> p < length xs \<Longrightarrow> xs ! p = ys ! p"
  shows "take m (drop q xs) = take m (drop q ys)"
proof (rule nth_equalityI)
  show "length (take m (drop q xs)) = length (take m (drop q ys))"
    using assms(1) by simp
next
  fix i assume "i < length (take m (drop q xs))"
  then have i: "i < m" "q + i < length xs" by auto
  then have "xs ! (q + i) = ys ! (q + i)" by (intro assms(2)) simp_all
  with i assms(1) show "take m (drop q xs) ! i = take m (drop q ys) ! i" by simp
qed

lemma takeWhile_prefix_cong:
  "take (length (takeWhile P w) + 1) w' = take (length (takeWhile P w) + 1) w \<Longrightarrow>
   takeWhile P w' = takeWhile P w"
proof (induction w arbitrary: w')
  case Nil
  then show ?case by simp
next
  case (Cons x xs)
  show ?case
  proof (cases w')
    case Nil
    with Cons.prems show ?thesis by (simp split: if_splits)
  next
    case (Cons y ys)
    with Cons.prems Cons.IH [of ys] show ?thesis by (simp split: if_splits)
  qed
qed

lemma raw_name_cong:
  assumes "take (min (length (raw_name_at xs q) + 1) 255) (drop q ys) =
           take (min (length (raw_name_at xs q) + 1) 255) (drop q xs)"
  shows "raw_name_at ys q = raw_name_at xs q"
  unfolding raw_name_at_def
proof (rule takeWhile_prefix_cong)
  show "take (length (takeWhile (\<lambda>b. b \<noteq> 0) (take 255 (drop q xs))) + 1) (take 255 (drop q ys)) =
        take (length (takeWhile (\<lambda>b. b \<noteq> 0) (take 255 (drop q xs))) + 1) (take 255 (drop q xs))"
    using assms by (simp add: raw_name_at_def)
qed

lemma encode_raw_name:
  assumes "40 \<le> entries_at b" and "entries_at b \<le> 40 + length (b_raw b)"
    and "40 \<le> q"
    and "q + min (length (raw_name_at (encode Big b) q) + 1) 255 \<le> entries_at b \<or>
         entries_end b \<le> q"
  shows "raw_name_at (encode e b) q = raw_name_at (encode Big b) q"
proof (rule raw_name_cong, rule segment_eq)
  let ?m = "min (length (raw_name_at (encode Big b) q) + 1) 255"
  show "length (encode e b) = length (encode Big b)"
    by (simp add: encode_length [OF assms(2)])
  fix p assume p: "q \<le> p" "p < q + ?m" "p < length (encode e b)"
  then have p': "p < length (encode Big b)" by (simp add: encode_length [OF assms(2)])
  from p assms(3) have "40 \<le> p" by simp
  moreover from p assms(4) have "p < entries_at b \<or> entries_end b \<le> p" by auto
  ultimately show "encode e b ! p = encode Big b ! p"
    using encode_nth_raw [OF assms(1,2) _ _ p(3)] encode_nth_raw [OF assms(1,2) _ _ p']
    by simp
qed

lemma encode_name_cursor:
  assumes "40 \<le> entries_at b" and "entries_at b \<le> 40 + length (b_raw b)"
    and "\<forall>j<n. name_clear b j" and "i \<le> n"
  shows "name_cursor (encode e b) (names_at b) i = name_cursor (encode Big b) (names_at b) i"
  using assms(4)
proof (induction i)
  case 0
  show ?case by simp
next
  case (Suc i)
  then have IH: "name_cursor (encode e b) (names_at b) i = name_cursor (encode Big b) (names_at b) i"
    and i: "i < n" by simp_all
  from assms(3) i have "name_clear b i" by simp
  then have "raw_name_at (encode e b) (names_at b + name_cursor (encode Big b) (names_at b) i) =
             raw_name_at (encode Big b) (names_at b + name_cursor (encode Big b) (names_at b) i)"
    by (intro encode_raw_name [OF assms(1,2)]) (simp_all add: name_clear_def Let_def)
  with IH show ?case by simp
qed

lemma encode_name_at:
  assumes "40 \<le> entries_at b" and "entries_at b \<le> 40 + length (b_raw b)"
    and "\<forall>j<n. name_clear b j" and "i < n"
  shows "name_at (encode e b) (names_at b) i = name_at (encode Big b) (names_at b) i"
proof -
  from assms(4) have "i \<le> n" by simp
  note c = encode_name_cursor [OF assms(1,2,3) this, of e]
  from assms(3,4) have "name_clear b i" by simp
  then have "raw_name_at (encode e b) (names_at b + name_cursor (encode Big b) (names_at b) i) =
             raw_name_at (encode Big b) (names_at b + name_cursor (encode Big b) (names_at b) i)"
    by (intro encode_raw_name [OF assms(1,2)]) (simp_all add: name_clear_def Let_def)
  with c show ?thesis by (simp add: name_at_def)
qed

lemma encode_step_ok:
  assumes "40 \<le> entries_at b" and "entries_at b \<le> 40 + length (b_raw b)"
    and "\<forall>j<n. name_clear b j" and "i < n"
  shows "step_ok (encode e b) (entries_at b) (names_at b) i =
         step_ok (encode Big b) (entries_at b) (names_at b) i"
proof -
  from assms(4) have "i \<le> n" by simp
  note c = encode_name_cursor [OF assms(1,2,3) this, of e]
  note a = encode_name_at [OF assms, of e]
  have l: "length (encode e b) = length (encode Big b)"
    by (simp add: encode_length [OF assms(2)])
  show ?thesis by (simp add: step_ok_def entry_ok_def name_ok_def c a l)
qed

lemma encode_step_error:
  assumes "40 \<le> entries_at b" and "entries_at b \<le> 40 + length (b_raw b)"
    and "\<forall>j<n. name_clear b j" and "i < n"
  shows "step_error (encode e b) (entries_at b) (names_at b) i =
         step_error (encode Big b) (entries_at b) (names_at b) i"
proof -
  from assms(4) have "i \<le> n" by simp
  note c = encode_name_cursor [OF assms(1,2,3) this, of e]
  have l: "length (encode e b) = length (encode Big b)"
    by (simp add: encode_length [OF assms(2)])
  show ?thesis by (simp add: step_error_def entry_ok_def name_ok_def c l)
qed

lemma first_failing_step:
  assumes "\<not> steps_ok e bs n"
  shows "\<exists>j<n. steps_ok e bs j \<and> \<not> step_ok bs (header_field e bs 0) (header_field e bs 1) j"
proof -
  let ?bad = "\<lambda>i. \<not> step_ok bs (header_field e bs 0) (header_field e bs 1) i"
  from assms obtain i where i: "i < n" "?bad i" by (auto simp: steps_ok_def)
  define j where "j = (LEAST i. ?bad i)"
  have bad: "?bad j" unfolding j_def using i(2) by (rule LeastI)
  have "j \<le> i" unfolding j_def using i(2) by (rule Least_le)
  with i(1) have lt: "j < n" by simp
  have "step_ok bs (header_field e bs 0) (header_field e bs 1) k" if "k < j" for k
    using not_less_Least [of k ?bad] that unfolding j_def by simp
  then have "steps_ok e bs j" by (simp add: steps_ok_def)
  with lt bad show ?thesis by (intro exI [of _ j]) simp
qed

lemma init_cong:
  assumes m: "magic_endianness bs = Some e" and m': "magic_endianness bs' = Some e'"
    and len: "length bs = length bs'" "40 \<le> length bs"
    and v: "version_field e bs = version_field e' bs'"
    and n: "num_files e bs = num_files e' bs'"
    and h: "header_field e bs 0 = header_field e' bs' 0" "header_field e bs 1 = header_field e' bs' 1"
    and ok: "\<And>i. i < num_files e bs \<Longrightarrow>
                  step_ok bs (header_field e bs 0) (header_field e bs 1) i =
                  step_ok bs' (header_field e bs 0) (header_field e bs 1) i"
    and err: "\<And>i. i < num_files e bs \<Longrightarrow>
                   step_error bs (header_field e bs 0) (header_field e bs 1) i =
                   step_error bs' (header_field e bs 0) (header_field e bs 1) i"
    and obj: "\<And>i. steps_ok e bs (num_files e bs) \<Longrightarrow> i < num_files e bs \<Longrightarrow>
                 object_at e bs (header_field e bs 0) (header_field e bs 1) (header_field e bs 2) i =
                 object_at e' bs' (header_field e' bs' 0) (header_field e' bs' 1)
                   (header_field e' bs' 2) i"
  shows "map_sum id file_objects (LPAKParser_init (open_rb bs)) =
         map_sum id file_objects (LPAKParser_init (open_rb bs'))"
proof -
  have steps: "steps_ok e bs j = steps_ok e' bs' j" if "j \<le> num_files e bs" for j
    using ok h that by (auto simp: steps_ok_def)
  show ?thesis
  proof (cases "16320 \<le> version_field e bs")
    case True
    with m m' len v show ?thesis by (simp add: init_eq parse_files_eq)
  next
    case False
    then have v1: "version_field e bs < 16320" and v2: "version_field e' bs' < 16320"
      using v by simp_all
    from len have len': "40 \<le> length bs'" by simp
    show ?thesis
    proof (cases "steps_ok e bs (num_files e bs)")
      case True
      then have "steps_ok e' bs' (num_files e' bs')" using steps [of "num_files e bs"] n by simp
      from init_success [OF m' len' v2 this] init_success [OF m len(2) v1 True]
      obtain p p' where "LPAKParser_init (open_rb bs) = Inr p" "file_objects p = records_of e bs"
        "LPAKParser_init (open_rb bs') = Inr p'" "file_objects p' = records_of e' bs'" by auto
      moreover have "records_of e bs = records_of e' bs'"
      proof -
        have "map (object_at e bs (header_field e bs 0) (header_field e bs 1)
                (header_field e bs 2)) [0..<num_files e bs] =
              map (object_at e' bs' (header_field e' bs' 0) (header_field e' bs' 1)
                (header_field e' bs' 2)) [0..<num_files e bs]"
          by (rule map_cong [OF refl], rule obj [OF True], simp)
        then show ?thesis by (simp only: records_of_def n [symmetric])
      qed
      ultimately show ?thesis by simp
    next
      case False
      from first_failing_step [OF this] obtain j where j: "j < num_files e bs" "steps_ok e bs j"
        "\<not> step_ok bs (header_field e bs 0) (header_field e bs 1) j" by auto
      from j have j': "j < num_files e' bs'" "steps_ok e' bs' j"
        "\<not> step_ok bs' (header_field e' bs' 0) (header_field e' bs' 1) j"
        using n steps [of j] ok [of j] h by simp_all
      from init_step_failure [OF m len(2) v1 j] init_step_failure [OF m' len' v2 j']
      show ?thesis using err [OF j(1)] h by simp
    qed
  qed
qed

lemma encode_object_at:
  assumes "40 \<le> entries_at b" and "entries_at b \<le> 40 + length (b_raw b)"
    and "i < length (b_entries b)"
  shows "object_at e (encode e b) (entries_at b) sfn sod i =
     \<lparr>offset = int (unat (e_offset (b_entries b ! i)) + sod),
      size_f = int (unat (e_size (b_entries b ! i))),
      compressed_size = int (unat (e_compressed_size (b_entries b ! i))),
      compressed = (e_compressed (b_entries b ! i) \<noteq> 0),
      filename = the_name (name_at (encode e b) sfn i)\<rparr>"
proof -
  have five: "(0::nat) < 5" "(2::nat) < 5" "(3::nat) < 5" "(4::nat) < 5" by simp_all
  note f = encode_entry_field [OF assms five(1), of e] encode_entry_field [OF assms five(2), of e]
    encode_entry_field [OF assms five(3), of e] encode_entry_field [OF assms five(4), of e]
  from f show ?thesis
    by (simp add: object_at_def entry_object_def entry_fields_def unat_eq_0)
qed

lemma all_entries_present:
  assumes w: "well_laid b" and s: "steps_ok e (encode e b) (announced b)"
  shows "announced b \<le> length (b_entries b)"
proof (rule ccontr)
  assume "\<not> announced b \<le> length (b_entries b)"
  then have k: "length (b_entries b) < announced b" by simp
  with w have short: "40 + length (b_raw b) < entries_end b + 20"
    by (simp add: well_laid_def)
  from w have a: "40 \<le> entries_at b" "entries_at b \<le> 40 + length (b_raw b)"
    by (simp_all add: well_laid_def)
  from s k have "entry_ok (encode e b) (entries_at b) (length (b_entries b))"
    by (simp add: steps_ok_def step_ok_def encode_header)
  then have "entries_end b + 20 \<le> length (encode e b)"
    by (simp add: entry_ok_def entries_end_def mult.commute)
  with short a show False
    by (simp add: encode_length [OF a(2)] entries_end_def)
qed

lemma be_bytes_4:
  "be_bytes 4 v =
     [of_nat (v div 16777216 mod 256), of_nat (v div 65536 mod 256), of_nat (v div 256 mod 256),
      of_nat (v mod 256)]"
proof -
  have "be_bytes (Suc (Suc (Suc (Suc 0)))) v =
     [of_nat (v div 16777216 mod 256), of_nat (v div 65536 mod 256), of_nat (v div 256 mod 256),
      of_nat (v mod 256)]"
    by (simp add: div_mult2_eq [symmetric])
  moreover have "(4::nat) = Suc (Suc (Suc (Suc 0)))" by simp
  ultimately show ?thesis by (simp only:)
qed

lemma be_bytes_2: "be_bytes 2 v = [of_nat (v div 256 mod 256), of_nat (v mod 256)]"
proof -
  have "be_bytes (Suc (Suc 0)) v = [of_nat (v div 256 mod 256), of_nat (v mod 256)]"
    by simp
  moreover have "(2::nat) = Suc (Suc 0)" by simp
  ultimately show ?thesis by (simp only:)
qed

lemma enc_Big:
  "enc32 Big x =
     [of_nat (unat x div 16777216 mod 256), of_nat (unat x div 65536 mod 256),
      of_nat (unat x div 256 mod 256), of_nat (unat x mod 256)]"
  "enc16 Big y = [of_nat (unat y div 256 mod 256), of_nat (unat y mod 256)]"
  by (simp_all add: enc32_def enc16_def pack_uint_def be_bytes_4 be_bytes_2)

lemma example_encoded:
  "encode Big (example_logical n1 n2 n3) = example_bundle n1 n2 n3 253"
  by (simp add: encode_def example_logical_def example_bundle_def magic_def header_fields_def
        enc_entry_def entry_fields_def lay_def entries_at_def enc_Big)

lemma example_layout:
  "entries_at (example_logical n1 n2 n3) = 40"
  "names_at (example_logical n1 n2 n3) = 100"
  "entries_end (example_logical n1 n2 n3) = 100"
  "announced (example_logical n1 n2 n3) = 3"
  "length (b_raw (example_logical n1 n2 n3)) = 328"
  "length (b_entries (example_logical n1 n2 n3)) = 3"
  by (simp_all add: entries_end_def entries_at_def names_at_def announced_def example_logical_def)

lemma example_name_clear:
  "name_clear (example_logical n1 n2 n3) 0"
  "name_clear (example_logical n1 n2 n3) (Suc 0)"
  "name_clear (example_logical n1 n2 n3) 2"
  by (simp_all add: name_clear_def example_layout example_encoded ex_cursor ex_raw)

lemma example_well_laid: "well_laid (example_logical n1 n2 n3)"
proof -
  have "name_clear (example_logical n1 n2 n3) i" if "i < 3" for i
  proof -
    from that have "i = 0 \<or> i = Suc 0 \<or> i = 2" by arith
    then show ?thesis using example_name_clear [of n1 n2 n3] by auto
  qed
  then show ?thesis by (simp add: well_laid_def example_layout)
qed

lemma example_big:
  "map_sum id file_objects (LPAKParser_init (open_rb (encode Big (example_logical n1 n2 n3)))) =
     Inr [\<lparr>offset = 261, size_f = 3, compressed_size = 3, compressed = False,
            filename = map of_char ''a.txt''\<rparr>,
          \<lparr>offset = 265, size_f = 4, compressed_size = 2, compressed = True,
            filename = map of_char ''bb.txt''\<rparr>,
          \<lparr>offset = 512, size_f = 1, compressed_size = 1, compressed = False,
            filename = map of_char ''c''\<rparr>]"
  using ex_parse [of 253 n1 n2 n3] by (auto simp: example_encoded ex_records)

lemma moved_encoded: "encode Big moved_logical = moved_bundle"
  by (simp add: encode_def moved_logical_def moved_bundle_def magic_def header_fields_def
        enc_entry_def entry_fields_def lay_def entries_at_def enc_Big)

lemma moved_layout:
  "entries_at moved_logical = 300"
  "names_at moved_logical = 40"
  "entries_end moved_logical = 340"
  "announced moved_logical = 2"
  "length (b_raw moved_logical) = 303"
  "length (b_entries moved_logical) = 2"
  by (simp_all add: entries_end_def entries_at_def names_at_def announced_def moved_logical_def)

lemma moved_length: "length moved_bundle = 343"
  by (simp add: moved_bundle_def LPAK_def)

lemma moved_magic: "magic_endianness moved_bundle = Some Big"
  by (simp add: magic_endianness_def moved_bundle_def LPAK_def)

lemma moved_version: "version_field Big moved_bundle = 1"
  by (simp add: version_field_def moved_bundle_def LPAK_def decode_uint_def be_uint_def)

lemma moved_header:
  "header_field Big moved_bundle 0 = 300"
  "header_field Big moved_bundle (Suc 0) = 40"
  "header_field Big moved_bundle 2 = 1000"
  "num_files Big moved_bundle = 2"
  by (simp_all add: num_files_def header_field_def u32_at_def moved_bundle_def LPAK_def
        decode_uint_def be_uint_def)

lemma moved_names_drop:
  "drop 40 moved_bundle =
     [0x78, 0x2E, 0x62, 0x69, 0x6E, 0, 0x79, 0] @ replicate 252 0 @
     [0, 0, 0, 0,  0, 0, 0, 0,  0, 0, 0, 7,  0, 0, 0, 7,  0, 0, 0, 0] @
     [0, 0, 0, 7,  0, 0, 0, 6,  0, 0, 0, 9,  0, 0, 0, 2,  0, 0, 0, 1] @
     replicate 3 0"
  by (simp add: moved_bundle_def LPAK_def)

lemma moved_raw:
  "raw_name_at moved_bundle 40 = [0x78, 0x2E, 0x62, 0x69, 0x6E]"
  "raw_name_at moved_bundle 46 = [0x79]"
  using raw_name_at_add [of moved_bundle 40 0] raw_name_at_add [of moved_bundle 40 6]
  by (simp_all add: moved_names_drop)

lemma moved_cursor: "name_cursor moved_bundle 40 (Suc 0) = 6"
  by (simp add: moved_raw)

lemma moved_names:
  "name_at moved_bundle 40 0 = [0x78, 0x2E, 0x62, 0x69, 0x6E]"
  "name_at moved_bundle 40 (Suc 0) = [0x79]"
  by (simp_all add: name_at_def moved_cursor moved_raw)

lemma moved_steps: "steps_ok Big moved_bundle 2"
  by (simp add: steps_ok_numeral steps_ok_Suc steps_ok_0 moved_header step_ok_def entry_ok_def
        name_ok_def moved_length moved_cursor moved_raw moved_names decodable_def)

lemma moved_entries:
  "u32_at Big moved_bundle 300 = 0"
  "u32_at Big moved_bundle 308 = 7"
  "u32_at Big moved_bundle 312 = 7"
  "u32_at Big moved_bundle 316 = 0"
  "u32_at Big moved_bundle 320 = 7"
  "u32_at Big moved_bundle 328 = 9"
  "u32_at Big moved_bundle 332 = 2"
  "u32_at Big moved_bundle 336 = 1"
  by (simp_all add: u32_at_def moved_bundle_def LPAK_def decode_uint_def be_uint_def)

lemma upt_2: "[0..<2] = [0, Suc 0]"
  by (simp add: upt_rec)

lemma moved_big:
  "map_sum id file_objects (LPAKParser_init (open_rb (encode Big moved_logical))) =
     Inr [\<lparr>offset = 1000, size_f = 7, compressed_size = 7, compressed = False,
            filename = map of_char ''x.bin''\<rparr>,
          \<lparr>offset = 1007, size_f = 9, compressed_size = 2, compressed = True,
            filename = map of_char ''y''\<rparr>]"
proof -
  have "\<exists>p. LPAKParser_init (open_rb moved_bundle) = Inr p \<and> endianness p = Big \<and>
          file_objects p = records_of Big moved_bundle"
    by (rule init_success) (simp_all add: moved_magic moved_length moved_version moved_header
        moved_steps)
  then show ?thesis
    by (auto simp: moved_encoded records_of_def moved_header upt_2 object_at_def entry_object_def
        moved_entries moved_names the_name_def)
qed

lemma moved_well_laid: "well_laid moved_logical"
proof -
  have "name_clear moved_logical i" if "i < 2" for i
  proof -
    from that have "i = 0 \<or> i = Suc 0" by arith
    then show ?thesis
      by (auto simp: name_clear_def moved_layout moved_encoded moved_cursor moved_raw)
  qed
  then show ?thesis by (simp add: well_laid_def moved_layout)
qed

lemma zeros_append: "replicate m (0::byte) @ replicate n 0 = replicate (m + n) 0"
  by (simp add: replicate_add)

lemma truncated_encoded: "encode Big truncated_logical = truncated_bundle"
proof -
  have "replicate 90 (0::byte) = replicate 80 0 @ replicate 10 0"
    by (simp add: zeros_append)
  moreover have "replicate 80 (0::byte) =
     [0, 0, 0, 0,  0, 0, 0, 0,  0, 0, 0, 0,  0, 0, 0, 0,  0, 0, 0, 0,
      0, 0, 0, 0,  0, 0, 0, 0,  0, 0, 0, 0,  0, 0, 0, 0,  0, 0, 0, 0,
      0, 0, 0, 0,  0, 0, 0, 0,  0, 0, 0, 0,  0, 0, 0, 0,  0, 0, 0, 0,
      0, 0, 0, 0,  0, 0, 0, 0,  0, 0, 0, 0,  0, 0, 0, 0,  0, 0, 0, 0]"
    by (simp add: numeral_eq_Suc)
  ultimately show ?thesis
    by (simp add: encode_def truncated_logical_def truncated_bundle_def magic_def
        header_fields_def enc_entry_def entry_fields_def lay_def entries_at_def enc_Big)
qed

lemma truncated_layout:
  "entries_at truncated_logical = 300"
  "names_at truncated_logical = 40"
  "entries_end truncated_logical = 380"
  "announced truncated_logical = 5"
  "length (b_raw truncated_logical) = 350"
  "length (b_entries truncated_logical) = 4"
  by (simp_all add: entries_end_def entries_at_def names_at_def announced_def
        truncated_logical_def)

lemma tr_raw_4: "raw_name_at truncated_bundle 48 = [0x65]"
  using raw_name_at_add [of truncated_bundle 40 8] by (simp add: tr_names_drop)

lemma truncated_well_laid: "well_laid truncated_logical"
proof -
  have "name_clear truncated_logical i" if "i < 5" for i
  proof -
    from that have "i = 0 \<or> i = Suc 0 \<or> i = 2 \<or> i = 3 \<or> i = 4" by arith
    then show ?thesis
      by (auto simp: name_clear_def truncated_layout truncated_encoded tr_cursor tr_raw tr_raw_4)
  qed
  then show ?thesis by (simp add: well_laid_def truncated_layout)
qed

lemma truncated_big:
  "LPAKParser_init (open_rb (encode Big truncated_logical)) = Inl StructError"
proof -
  have n: "num_files Big truncated_bundle = 5"
    by (simp add: num_files_def tr_header)
  have "LPAKParser_init (open_rb truncated_bundle) =
      Inl (step_error truncated_bundle (header_field Big truncated_bundle 0)
             (header_field Big truncated_bundle 1) 4)"
    by (rule init_step_failure)
      (simp_all add: tr_magic tr_length tr_version n tr_steps step_ok_def entry_ok_def tr_header)
  then show ?thesis
    by (simp add: truncated_encoded step_error_def entry_ok_def tr_header tr_length)
qed

section \<open>The claims\<close>

text \<open>
  C1. File names are resolved by consuming the name table in sequence: the name of entry
  \<open>i\<close> is the decoding of \<open>name_at\<close>, the bytes before the first null byte at the
  start of the name table plus \<open>name_cursor\<close>, which is 0 for the first entry and grows by
  the length of each name plus one. The \<^verbatim>\<open>name_offset\<close> field of an entry takes no part in
  it.
\<close>

theorem filenames_sequential:
  assumes "LPAKParser_init (open_rb bs) = Inr p"
  shows "map (\<lambda>r. Inr (filename r)) (file_objects p) =
         map (\<lambda>i. decode (name_at bs (header_field (endianness p) bs 1) i))
           [0..<length (file_objects p)]"
proof -
  let ?e = "endianness p"
  from init_Inr [OF assms] have ok: "steps_ok ?e bs (num_files ?e bs)"
    and fo: "file_objects p = records_of ?e bs" by simp_all
  show ?thesis
  proof (rule nth_equalityI)
    show "length (map (\<lambda>r. Inr (filename r)) (file_objects p)) =
          length (map (\<lambda>i. decode (name_at bs (header_field ?e bs 1) i))
            [0..<length (file_objects p)])" by simp
  next
    fix i assume "i < length (map (\<lambda>r. Inr (filename r)) (file_objects p))"
    then have i: "i < num_files ?e bs" by (simp add: fo records_of_length)
    with ok have "decodable (name_at bs (header_field ?e bs 1) i)"
      by (simp add: steps_ok_def step_ok_def)
    with i show "map (\<lambda>r. Inr (filename r)) (file_objects p) ! i =
        map (\<lambda>i. decode (name_at bs (header_field ?e bs 1) i)) [0..<length (file_objects p)] ! i"
      by (simp add: fo records_of_length records_of_nth object_at_def entry_object_def decode_eq)
  qed
qed

text \<open>
  The name table \<^verbatim>\<open>b"a.txt\0bb.txt\0c\0"\<close> gives the names \<^verbatim>\<open>a.txt\<close>, \<^verbatim>\<open>bb.txt\<close>, \<^verbatim>\<open>c\<close> in
  this order, whatever the three \<^verbatim>\<open>name_offset\<close> fields hold.
\<close>

theorem filenames_sequential_witness:
  "\<forall>n1 n2 n3. \<exists>p.
     LPAKParser_init (open_rb (example_bundle n1 n2 n3 253)) = Inr p \<and>
     map filename (file_objects p) =
       [map of_char ''a.txt'', map of_char ''bb.txt'', map of_char ''c'']"
proof (intro allI)
  fix n1 n2 n3
  let ?bs = "example_bundle n1 n2 n3 253"
  from ex_parse [of 253 n1 n2 n3] obtain p
    where p: "LPAKParser_init (open_rb ?bs) = Inr p" and e: "endianness p = Big"
      and fo: "file_objects p = records_of Big ?bs" by auto
  have len: "length (file_objects p) = 3"
    by (simp add: fo records_of_length ex_num_files)
  have "map (\<lambda>r. Inr (filename r) :: error + str) (file_objects p) =
      map Inr [map of_char ''a.txt'', map of_char ''bb.txt'', map of_char ''c'']"
    using filenames_sequential [OF p]
    by (simp add: len e upt_3 ex_header ex_names decode_def)
  then have "map filename (file_objects p) =
      [map of_char ''a.txt'', map of_char ''bb.txt'', map of_char ''c'']"
    by (rule map_Inr_eq)
  with p show "\<exists>p. LPAKParser_init (open_rb ?bs) = Inr p \<and>
     map filename (file_objects p) =
       [map of_char ''a.txt'', map of_char ''bb.txt'', map of_char ''c'']"
    by (intro exI [of _ p] conjI)
qed

text \<open>
  C2, as the code has it. The name of every entry of a parsed bundle is read with the
  format \<^verbatim>\<open>255s\<close>: 255 bytes are there from the start of the name on, and the name is
  the part of them before the first null byte. When the parse reaches a name with fewer
  than 255 bytes after its start, it raises \<^verbatim>\<open>struct.error\<close>, wherever the null byte of
  the name is. (The claim said that a name whose null byte is present decodes even when
  fewer than 255 bytes remain.)
\<close>

theorem name_read_255:
  "(\<forall>p i. LPAKParser_init (open_rb bs) = Inr p \<and> i < length (file_objects p) \<longrightarrow>
      header_field (endianness p) bs 1 + name_cursor bs (header_field (endianness p) bs 1) i + 255
        \<le> length bs \<and>
      decode (takeWhile (\<lambda>b. b \<noteq> 0)
                (take 255 (drop (header_field (endianness p) bs 1 +
                                 name_cursor bs (header_field (endianness p) bs 1) i) bs))) =
        Inr (filename (file_objects p ! i))) \<and>
   (magic_endianness bs = Some e \<and> version_field e bs < 16320 \<and> 40 \<le> length bs \<and>
    j < num_files e bs \<and> steps_ok e bs j \<and> entry_ok bs (header_field e bs 0) j \<and>
    length bs < header_field e bs 1 + name_cursor bs (header_field e bs 1) j + 255 \<longrightarrow>
      LPAKParser_init (open_rb bs) = Inl StructError)"
proof (intro conjI allI impI)
  fix p i
  assume a: "LPAKParser_init (open_rb bs) = Inr p \<and> i < length (file_objects p)"
  let ?e = "endianness p"
  from init_Inr [of bs p] a have ok: "steps_ok ?e bs (num_files ?e bs)"
    and fo: "file_objects p = records_of ?e bs" by simp_all
  from a have i: "i < num_files ?e bs" by (simp add: fo records_of_length)
  with ok have s: "step_ok bs (header_field ?e bs 0) (header_field ?e bs 1) i"
    by (simp add: steps_ok_def)
  then show "header_field ?e bs 1 + name_cursor bs (header_field ?e bs 1) i + 255 \<le> length bs"
    by (simp add: step_ok_def name_ok_def)
  from s i show "decode (takeWhile (\<lambda>b. b \<noteq> 0)
                (take 255 (drop (header_field ?e bs 1 +
                                 name_cursor bs (header_field ?e bs 1) i) bs))) =
        Inr (filename (file_objects p ! i))"
    by (simp add: fo records_of_nth object_at_def entry_object_def decode_eq step_ok_def
          name_at_def raw_name_at_def)
next
  assume a: "magic_endianness bs = Some e \<and> version_field e bs < 16320 \<and> 40 \<le> length bs \<and>
    j < num_files e bs \<and> steps_ok e bs j \<and> entry_ok bs (header_field e bs 0) j \<and>
    length bs < header_field e bs 1 + name_cursor bs (header_field e bs 1) j + 255"
  then have n: "\<not> name_ok bs (header_field e bs 1) j"
    by (simp add: name_ok_def)
  then have "\<not> step_ok bs (header_field e bs 0) (header_field e bs 1) j"
    by (simp add: step_ok_def)
  with a have "LPAKParser_init (open_rb bs) =
      Inl (step_error bs (header_field e bs 0) (header_field e bs 1) j)"
    by (intro init_step_failure) simp_all
  with n show "LPAKParser_init (open_rb bs) = Inl StructError"
    by (simp add: step_error_def)
qed

text \<open>
  In the example bundle with 253 bytes after the name table exactly 255 bytes remain from
  the start of the third name, and it is read.
\<close>

theorem name_read_255_witness:
  "\<exists>p. LPAKParser_init (open_rb (example_bundle 0 6 13 253)) = Inr p \<and>
       2 < length (file_objects p) \<and>
       100 + 13 + 255 \<le> length (example_bundle 0 6 13 253) \<and>
       decode (takeWhile (\<lambda>b. b \<noteq> 0) (take 255 (drop 113 (example_bundle 0 6 13 253)))) =
         Inr (filename (file_objects p ! 2)) \<and>
       filename (file_objects p ! 2) = map of_char ''c''"
proof -
  let ?bs = "example_bundle 0 6 13 253"
  from ex_parse [of 253 0 6 13] obtain p
    where p: "LPAKParser_init (open_rb ?bs) = Inr p" and e: "endianness p = Big"
      and fo: "file_objects p = records_of Big ?bs" by auto
  have len: "2 < length (file_objects p)"
    by (simp add: fo records_of_length ex_num_files)
  from name_read_255 [of ?bs, THEN conjunct1, rule_format, of p 2] p len have
    "100 + 13 + 255 \<le> length ?bs \<and>
     decode (takeWhile (\<lambda>b. b \<noteq> 0) (take 255 (drop 113 ?bs))) =
       Inr (filename (file_objects p ! 2))"
    by (simp add: e ex_header ex_cursor)
  moreover have "filename (file_objects p ! 2) = map of_char ''c''"
    by (simp add: fo ex_records)
  ultimately show ?thesis using p len by (intro exI [of _ p]) simp
qed

text \<open>
  With one byte less (252 bytes after the name table) all three names and their null bytes
  are still in the source, but only 254 bytes remain from the start of the third name:
  the parser raises \<^verbatim>\<open>struct.error\<close>.
\<close>

theorem name_needs_255_bytes_counterexample:
  "LPAKParser_init (open_rb (example_bundle 0 6 13 252)) = Inl StructError \<and>
   drop 100 (example_bundle 0 6 13 252) =
     [0x61, 0x2E, 0x74, 0x78, 0x74, 0, 0x62, 0x62, 0x2E, 0x74, 0x78, 0x74, 0, 0x63, 0] @
     replicate 252 0"
proof
  let ?bs = "example_bundle 0 6 13 252"
  have "LPAKParser_init (open_rb ?bs) =
      Inl (step_error ?bs (header_field Big ?bs 0) (header_field Big ?bs 1) 2)"
    by (rule init_step_failure)
      (simp_all add: ex_magic ex_length ex_version ex_num_files ex_header steps_ok_numeral
        steps_ok_Suc steps_ok_0 step_ok_def entry_ok_def name_ok_def ex_cursor ex_raw ex_names
        decodable_def)
  then show "LPAKParser_init (open_rb ?bs) = Inl StructError"
    by (simp add: step_error_def ex_header entry_ok_def name_ok_def ex_length ex_cursor)
  show "drop 100 ?bs =
     [0x61, 0x2E, 0x74, 0x78, 0x74, 0, 0x62, 0x62, 0x2E, 0x74, 0x78, 0x74, 0, 0x63, 0] @
     replicate 252 0"
    by (rule ex_names_drop)
qed

text \<open>
  C3, as the code has it. The offset of every record is the relative offset of its entry
  plus the start of the data, and it is not negative. (The claim also said that it lies
  within the source; the parser compares no offset with the length of the source.)
\<close>

theorem offset_is_sum:
  assumes "LPAKParser_init (open_rb bs) = Inr p" and "i < length (file_objects p)"
  shows "offset (file_objects p ! i) =
           int (u32_at (endianness p) bs (header_field (endianness p) bs 0 + i * 20)) +
           int (header_field (endianness p) bs 2) \<and>
         0 \<le> offset (file_objects p ! i)"
proof -
  let ?e = "endianness p"
  from init_Inr [OF assms(1)] have fo: "file_objects p = records_of ?e bs" by simp
  from assms(2) have i: "i < num_files ?e bs" by (simp add: fo records_of_length)
  then show ?thesis
    by (simp add: fo records_of_nth object_at_def entry_object_def)
qed

text \<open>The third record of the example bundle: relative offset 256, data at 256.\<close>

theorem offset_is_sum_witness:
  "\<exists>p. LPAKParser_init (open_rb (example_bundle 0 6 13 253)) = Inr p \<and>
       2 < length (file_objects p) \<and>
       offset (file_objects p ! 2) = 256 + 256 \<and> 0 \<le> offset (file_objects p ! 2)"
proof -
  let ?bs = "example_bundle 0 6 13 253"
  from ex_parse [of 253 0 6 13] obtain p
    where p: "LPAKParser_init (open_rb ?bs) = Inr p" and e: "endianness p = Big"
      and fo: "file_objects p = records_of Big ?bs" by auto
  have len: "2 < length (file_objects p)"
    by (simp add: fo records_of_length ex_num_files)
  from offset_is_sum [OF p len] have
    "offset (file_objects p ! 2) = 256 + 256 \<and> 0 \<le> offset (file_objects p ! 2)"
    by (simp add: e ex_header ex_entries)
  with p len show ?thesis by (intro exI [of _ p]) simp
qed

text \<open>That record starts at 512 in a source of 368 bytes, and the parse succeeds.\<close>

theorem offset_within_source_counterexample:
  "map_sum id (map offset \<circ> file_objects)
     (LPAKParser_init (open_rb (example_bundle 0 6 13 253))) = Inr [261, 265, 512] \<and>
   length (example_bundle 0 6 13 253) = 368"
  using ex_parse [of 253 0 6 13] by (auto simp: ex_records ex_length)

text \<open>
  C6. A bundle that parses has as many records as the size of the entry table, the fifth
  of the seven 32-bit fields at offset 12, divided by 20 and rounded down.
\<close>

theorem record_count:
  assumes "LPAKParser_init (open_rb bs) = Inr p"
  shows "length (file_objects p) = header_field (endianness p) bs 4 div 20"
  using init_Inr [OF assms] by (simp add: records_of_length num_files_def)

text \<open>The example bundle gives 65 as that size, not a multiple of 20, and has 3 records.\<close>

theorem record_count_witness:
  "\<exists>p. LPAKParser_init (open_rb (example_bundle 0 6 13 253)) = Inr p \<and>
       header_field (endianness p) (example_bundle 0 6 13 253) 4 = 65 \<and>
       length (file_objects p) = 3"
proof -
  let ?bs = "example_bundle 0 6 13 253"
  from ex_parse [of 253 0 6 13] obtain p
    where p: "LPAKParser_init (open_rb ?bs) = Inr p" and e: "endianness p = Big" by auto
  from record_count [OF p] have "length (file_objects p) = 3"
    by (simp add: e ex_header)
  with p e show ?thesis by (auto simp: ex_header)
qed

text \<open>
  C7. Record \<open>i\<close> of a parsed bundle is built from the five 32-bit fields at the start of
  the entry table plus \<open>20 i\<close>: the first plus the start of the data is its offset, the
  third its size, the fourth its compressed size, and it is compressed if and only if the
  fifth is not zero. The records are in the order of the entry table.
\<close>

theorem record_fields:
  assumes "LPAKParser_init (open_rb bs) = Inr p" and "i < length (file_objects p)"
  shows "file_objects p ! i =
           \<lparr>offset = int (u32_at (endianness p) bs (header_field (endianness p) bs 0 + i * 20) +
                           header_field (endianness p) bs 2),
            size_f = int (u32_at (endianness p) bs (header_field (endianness p) bs 0 + i * 20 + 8)),
            compressed_size =
              int (u32_at (endianness p) bs (header_field (endianness p) bs 0 + i * 20 + 12)),
            compressed = (u32_at (endianness p) bs (header_field (endianness p) bs 0 + i * 20 + 16) \<noteq> 0),
            filename = filename (file_objects p ! i)\<rparr>"
proof -
  let ?e = "endianness p"
  from init_Inr [OF assms(1)] have fo: "file_objects p = records_of ?e bs" by simp
  from assms(2) have i: "i < num_files ?e bs" by (simp add: fo records_of_length)
  then show ?thesis
    by (simp add: fo records_of_nth object_at_def entry_object_def)
qed

text \<open>The second record of the example bundle.\<close>

theorem record_fields_witness:
  "\<exists>p. LPAKParser_init (open_rb (example_bundle 0 6 13 253)) = Inr p \<and>
       1 < length (file_objects p) \<and>
       file_objects p ! 1 =
         \<lparr>offset = 9 + 256, size_f = 4, compressed_size = 2, compressed = True,
          filename = map of_char ''bb.txt''\<rparr>"
proof -
  let ?bs = "example_bundle 0 6 13 253"
  from ex_parse [of 253 0 6 13] obtain p
    where p: "LPAKParser_init (open_rb ?bs) = Inr p" and e: "endianness p = Big"
      and fo: "file_objects p = records_of Big ?bs" by auto
  have len: "1 < length (file_objects p)"
    by (simp add: fo records_of_length ex_num_files)
  have name: "filename (file_objects p ! 1) = map of_char ''bb.txt''"
    by (simp add: fo ex_records)
  from record_fields [OF p len] name have
    "file_objects p ! 1 =
       \<lparr>offset = 9 + 256, size_f = 4, compressed_size = 2, compressed = True,
        filename = map of_char ''bb.txt''\<rparr>"
    by (simp add: e ex_header ex_entries)
  with p len show ?thesis by (intro exI [of _ p]) simp
qed

text \<open>
  C4. For a source of at least four bytes: when the first four are \<^verbatim>\<open>LPAK\<close> the rest of
  the parse runs with the byte order \<open>Big\<close>, and a parser it returns has that byte order
  and the records decoded with it; when they are \<^verbatim>\<open>KAPL\<close> the same holds with \<open>Little\<close>;
  any other four bytes raise \<^verbatim>\<open>ValueError("Not a LPAK file")\<close>, and no parser is returned.
\<close>

theorem magic_selects_byte_order:
  assumes "4 \<le> length bs"
  shows "(take 4 bs = LPAK \<longrightarrow>
            LPAKParser_init (open_rb bs) =
              parse_files \<lparr>file' = \<lparr>content = bs, pos = 4\<rparr>, endianness = Big, file_objects = []\<rparr> \<and>
            (\<forall>p. LPAKParser_init (open_rb bs) = Inr p \<longrightarrow>
                   endianness p = Big \<and> file_objects p = records_of Big bs)) \<and>
         (take 4 bs = KAPL \<longrightarrow>
            LPAKParser_init (open_rb bs) =
              parse_files \<lparr>file' = \<lparr>content = bs, pos = 4\<rparr>, endianness = Little, file_objects = []\<rparr> \<and>
            (\<forall>p. LPAKParser_init (open_rb bs) = Inr p \<longrightarrow>
                   endianness p = Little \<and> file_objects p = records_of Little bs)) \<and>
         (take 4 bs \<noteq> LPAK \<and> take 4 bs \<noteq> KAPL \<longrightarrow>
            LPAKParser_init (open_rb bs) = Inl (ValueError ''Not a LPAK file''))"
proof (intro conjI impI allI)
  assume "take 4 bs = LPAK"
  then have m: "magic_endianness bs = Some Big" by (simp add: magic_endianness_def)
  with assms show "LPAKParser_init (open_rb bs) =
      parse_files \<lparr>file' = \<lparr>content = bs, pos = 4\<rparr>, endianness = Big, file_objects = []\<rparr>"
    by (simp add: init_eq)
  fix p assume "LPAKParser_init (open_rb bs) = Inr p"
  from init_Inr [OF this] m show "endianness p = Big" "file_objects p = records_of Big bs"
    by simp_all
next
  assume "take 4 bs = KAPL"
  then have m: "magic_endianness bs = Some Little"
    using LPAK_neq_KAPL by (simp add: magic_endianness_def)
  with assms show "LPAKParser_init (open_rb bs) =
      parse_files \<lparr>file' = \<lparr>content = bs, pos = 4\<rparr>, endianness = Little, file_objects = []\<rparr>"
    by (simp add: init_eq)
  fix p assume "LPAKParser_init (open_rb bs) = Inr p"
  from init_Inr [OF this] m show "endianness p = Little" "file_objects p = records_of Little bs"
    by simp_all
next
  assume "take 4 bs \<noteq> LPAK \<and> take 4 bs \<noteq> KAPL"
  then have "magic_endianness bs = None" by (simp add: magic_endianness_def)
  with assms show "LPAKParser_init (open_rb bs) = Inl (ValueError ''Not a LPAK file'')"
    by (simp add: init_eq)
qed

text \<open>The four bytes \<^verbatim>\<open>XXXX\<close> are rejected.\<close>

theorem magic_selects_byte_order_witness:
  "(4::nat) \<le> length [0x58, 0x58, 0x58, 0x58 :: byte] \<and>
   LPAKParser_init (open_rb [0x58, 0x58, 0x58, 0x58]) = Inl (ValueError ''Not a LPAK file'')"
  using magic_selects_byte_order [of "[0x58, 0x58, 0x58, 0x58]"]
  by (simp add: LPAK_def KAPL_def)

text \<open>
  C5. For a source with one of the two tags, the parse raises the \<^verbatim>\<open>ValueError\<close> of the
  unsupported format if and only if the 16-bit field at offset 6, decoded with the byte
  order of the tag, is at least 16320; a smaller value (with the field present) goes on
  to \<^verbatim>\<open>parse_files_v1\<close>.
\<close>

theorem version_check:
  assumes "magic_endianness bs = Some e"
  shows "(LPAKParser_init (open_rb bs) =
            Inl (ValueError ''Post-Full Throttle file format no supported'')
          \<longleftrightarrow> 16320 \<le> version_field e bs) \<and>
         (8 \<le> length bs \<and> version_field e bs < 16320 \<longrightarrow>
            LPAKParser_init (open_rb bs) =
              parse_files_v1 \<lparr>file' = \<lparr>content = bs, pos = 8\<rparr>, endianness = e, file_objects = []\<rparr>)"
proof -
  let ?p1 = "\<lparr>file' = \<lparr>content = bs, pos = 8\<rparr>, endianness = e, file_objects = []\<rparr>"
  let ?err = "Inl (ValueError ''Post-Full Throttle file format no supported'') :: error + LPAKParser"
  note len4 = magic_length [OF assms]
  have init: "LPAKParser_init (open_rb bs) =
      (if length bs < 8 then Inl StructError
       else if 16320 \<le> version_field e bs then ?err else parse_files_v1 ?p1)"
    using assms len4 by (simp add: init_eq parse_files_eq)
  have v1: "parse_files_v1 ?p1 \<noteq> ?err"
  proof
    assume "parse_files_v1 ?p1 = ?err"
    from v1_Inl [OF _ _ this, of bs e] show False by simp
  qed
  show ?thesis
    using init v1 version_field_short [of bs e] by auto
qed

text \<open>The tag \<^verbatim>\<open>LPAK\<close> with the version 16320 exactly is rejected.\<close>

theorem version_check_witness:
  "magic_endianness (LPAK @ [0, 0, 0x3F, 0xC0]) = Some Big \<and>
   version_field Big (LPAK @ [0, 0, 0x3F, 0xC0]) = 16320 \<and>
   LPAKParser_init (open_rb (LPAK @ [0, 0, 0x3F, 0xC0])) =
     Inl (ValueError ''Post-Full Throttle file format no supported'')"
proof -
  have m: "magic_endianness (LPAK @ [0, 0, 0x3F, 0xC0]) = Some Big"
    by (simp add: magic_endianness_def LPAK_def)
  have v: "version_field Big (LPAK @ [0, 0, 0x3F, 0xC0]) = 16320"
    by (simp add: version_field_def LPAK_def decode_uint_def be_uint_def)
  from version_check [OF m] v show ?thesis using m by simp
qed

text \<open>
  C8. A read that finds fewer bytes than its format needs raises \<^verbatim>\<open>struct.error\<close>, and the
  parse returns no parser, hence no list of records: the tag (4 bytes at 0), the version
  (2 bytes at 6), the header (28 bytes at 12), and in pass \<open>j\<close> of the loop, reached when
  the passes before it went through, the entry (20 bytes) and the name (255 bytes).
\<close>

theorem short_read_fails:
  "(length bs < 4 \<longrightarrow> LPAKParser_init (open_rb bs) = Inl StructError) \<and>
   (magic_endianness bs = Some e \<and> length bs < 8 \<longrightarrow>
      LPAKParser_init (open_rb bs) = Inl StructError) \<and>
   (magic_endianness bs = Some e \<and> version_field e bs < 16320 \<and> length bs < 40 \<longrightarrow>
      LPAKParser_init (open_rb bs) = Inl StructError) \<and>
   (magic_endianness bs = Some e \<and> version_field e bs < 16320 \<and> 40 \<le> length bs \<and>
    j < num_files e bs \<and> steps_ok e bs j \<and>
    (\<not> entry_ok bs (header_field e bs 0) j \<or> \<not> name_ok bs (header_field e bs 1) j) \<longrightarrow>
      LPAKParser_init (open_rb bs) = Inl StructError)"
proof (intro conjI impI)
  assume "length bs < 4"
  then show "LPAKParser_init (open_rb bs) = Inl StructError" by (simp add: init_eq)
next
  assume "magic_endianness bs = Some e \<and> length bs < 8"
  then show "LPAKParser_init (open_rb bs) = Inl StructError"
    by (simp add: init_eq parse_files_eq)
next
  assume "magic_endianness bs = Some e \<and> version_field e bs < 16320 \<and> length bs < 40"
  then show "LPAKParser_init (open_rb bs) = Inl StructError"
    by (simp add: init_eq parse_files_eq parse_files_v1_eq)
next
  assume a: "magic_endianness bs = Some e \<and> version_field e bs < 16320 \<and> 40 \<le> length bs \<and>
    j < num_files e bs \<and> steps_ok e bs j \<and>
    (\<not> entry_ok bs (header_field e bs 0) j \<or> \<not> name_ok bs (header_field e bs 1) j)"
  then have "\<not> step_ok bs (header_field e bs 0) (header_field e bs 1) j"
    by (auto simp: step_ok_def)
  with a have "LPAKParser_init (open_rb bs) =
      Inl (step_error bs (header_field e bs 0) (header_field e bs 1) j)"
    by (intro init_step_failure) simp_all
  with a show "LPAKParser_init (open_rb bs) = Inl StructError"
    by (auto simp: step_error_def)
qed

text \<open>
  A bundle that announces five entries and ends 10 bytes into the fifth: four passes go
  through, and the parse raises \<^verbatim>\<open>struct.error\<close> rather than return four records.
\<close>

theorem short_read_fails_witness:
  "num_files Big truncated_bundle = 5 \<and> length truncated_bundle = 300 + 4 * 20 + 10 \<and>
   LPAKParser_init (open_rb truncated_bundle) = Inl StructError"
proof -
  have n: "num_files Big truncated_bundle = 5"
    by (simp add: num_files_def tr_header)
  have "\<not> entry_ok truncated_bundle (header_field Big truncated_bundle 0) 4"
    by (simp add: entry_ok_def tr_header tr_length)
  with short_read_fails [of truncated_bundle Big 4] tr_steps
  have "LPAKParser_init (open_rb truncated_bundle) = Inl StructError"
    by (simp add: tr_magic tr_version tr_length n)
  with n show ?thesis by (simp add: tr_length)
qed

text \<open>
  C9. The two encodings of a bundle, \<^verbatim>\<open>LPAK\<close> with big-endian fields and \<^verbatim>\<open>KAPL\<close> with
  little-endian fields, parse to the same sequence of records (and where one parse
  raises an exception, the other raises the same). The tables are where the header of the
  bundle puts them; the entry table lies after the header and the names lie outside the
  header and the entry table (\<open>well_laid\<close>).
\<close>

theorem byte_order_independent:
  assumes "well_laid b"
  shows "map_sum id file_objects (LPAKParser_init (open_rb (encode Big b))) =
         map_sum id file_objects (LPAKParser_init (open_rb (encode Little b)))"
proof (rule init_cong [where e = Little and e' = Big, symmetric])
  from assms have a: "40 \<le> entries_at b" "entries_at b \<le> 40 + length (b_raw b)"
    and c: "\<forall>j<announced b. name_clear b j"
    by (simp_all add: well_laid_def)
  note hf = encode_header
  show "magic_endianness (encode Little b) = Some Little" "magic_endianness (encode Big b) = Some Big"
    by (rule encode_magic)+
  show "length (encode Little b) = length (encode Big b)" "40 \<le> length (encode Little b)"
    by (simp_all add: encode_length [OF a(2)])
  show "version_field Little (encode Little b) = version_field Big (encode Big b)"
    by (simp add: encode_version)
  show "num_files Little (encode Little b) = num_files Big (encode Big b)"
    by (simp add: hf)
  show "header_field Little (encode Little b) 0 = header_field Big (encode Big b) 0"
    "header_field Little (encode Little b) 1 = header_field Big (encode Big b) 1"
    by (simp_all only: hf)
  show "step_ok (encode Little b) (header_field Little (encode Little b) 0)
          (header_field Little (encode Little b) 1) i =
        step_ok (encode Big b) (header_field Little (encode Little b) 0)
          (header_field Little (encode Little b) 1) i"
    if "i < num_files Little (encode Little b)" for i
  proof -
    from that have "i < announced b" by (simp add: hf)
    from encode_step_ok [OF a c this, of Little] show ?thesis by (simp only: hf)
  qed
  show "step_error (encode Little b) (header_field Little (encode Little b) 0)
          (header_field Little (encode Little b) 1) i =
        step_error (encode Big b) (header_field Little (encode Little b) 0)
          (header_field Little (encode Little b) 1) i"
    if "i < num_files Little (encode Little b)" for i
  proof -
    from that have "i < announced b" by (simp add: hf)
    from encode_step_error [OF a c this, of Little] show ?thesis by (simp only: hf)
  qed
  show "object_at Little (encode Little b) (header_field Little (encode Little b) 0)
          (header_field Little (encode Little b) 1) (header_field Little (encode Little b) 2) i =
        object_at Big (encode Big b) (header_field Big (encode Big b) 0)
          (header_field Big (encode Big b) 1) (header_field Big (encode Big b) 2) i"
    if "steps_ok Little (encode Little b) (num_files Little (encode Little b))"
      and "i < num_files Little (encode Little b)" for i
  proof -
    from that have s: "steps_ok Little (encode Little b) (announced b)" and i: "i < announced b"
      by (simp_all add: hf)
    from all_entries_present [OF assms s] i have k: "i < length (b_entries b)" by simp
    from encode_name_at [OF a c i, of Little] show ?thesis
      by (simp only: hf encode_object_at [OF a k])
  qed
qed

text \<open>
  The little-endian encodings of the three bundles: the first parses to the three records
  and the second to the two records their big-endian encodings parse to, and the third
  raises \<^verbatim>\<open>struct.error\<close> as its big-endian encoding does.
\<close>

theorem byte_order_independent_witness:
  "well_laid (example_logical 7 0 9) \<and>
   map_sum id file_objects (LPAKParser_init (open_rb (encode Little (example_logical 7 0 9)))) =
     Inr [\<lparr>offset = 261, size_f = 3, compressed_size = 3, compressed = False,
            filename = map of_char ''a.txt''\<rparr>,
          \<lparr>offset = 265, size_f = 4, compressed_size = 2, compressed = True,
            filename = map of_char ''bb.txt''\<rparr>,
          \<lparr>offset = 512, size_f = 1, compressed_size = 1, compressed = False,
            filename = map of_char ''c''\<rparr>] \<and>
   well_laid moved_logical \<and>
   map_sum id file_objects (LPAKParser_init (open_rb (encode Little moved_logical))) =
     Inr [\<lparr>offset = 1000, size_f = 7, compressed_size = 7, compressed = False,
            filename = map of_char ''x.bin''\<rparr>,
          \<lparr>offset = 1007, size_f = 9, compressed_size = 2, compressed = True,
            filename = map of_char ''y''\<rparr>] \<and>
   well_laid truncated_logical \<and>
   map_sum id file_objects (LPAKParser_init (open_rb (encode Little truncated_logical))) =
     Inl StructError"
  using byte_order_independent [OF example_well_laid [of 7 0 9]] example_big [of 7 0 9]
    byte_order_independent [OF moved_well_laid] moved_big
    byte_order_independent [OF truncated_well_laid] truncated_big
    example_well_laid [of 7 0 9] moved_well_laid truncated_well_laid
  by (simp only: simp_thms map_sum.simps id_apply)

text \<open>
  C10. A parse succeeds only when every name decodes as UTF-8; when the parse reaches a
  pass whose entry and name are read in full and whose name does not decode, it raises
  \<^verbatim>\<open>UnicodeDecodeError\<close> and returns no parser.
\<close>

theorem undecodable_name_fails:
  "(\<forall>p. LPAKParser_init (open_rb bs) = Inr p \<longrightarrow>
        (\<forall>i<length (file_objects p).
           decodable (name_at bs (header_field (endianness p) bs 1) i))) \<and>
   (magic_endianness bs = Some e \<and> version_field e bs < 16320 \<and> 40 \<le> length bs \<and>
    j < num_files e bs \<and> steps_ok e bs j \<and>
    entry_ok bs (header_field e bs 0) j \<and> name_ok bs (header_field e bs 1) j \<and>
    \<not> decodable (name_at bs (header_field e bs 1) j) \<longrightarrow>
      LPAKParser_init (open_rb bs) = Inl UnicodeDecodeError)"
proof (intro conjI impI allI)
  fix p i
  assume p: "LPAKParser_init (open_rb bs) = Inr p" and i: "i < length (file_objects p)"
  from init_Inr [OF p] i show "decodable (name_at bs (header_field (endianness p) bs 1) i)"
    by (simp add: records_of_length steps_ok_def step_ok_def)
next
  assume a: "magic_endianness bs = Some e \<and> version_field e bs < 16320 \<and> 40 \<le> length bs \<and>
    j < num_files e bs \<and> steps_ok e bs j \<and>
    entry_ok bs (header_field e bs 0) j \<and> name_ok bs (header_field e bs 1) j \<and>
    \<not> decodable (name_at bs (header_field e bs 1) j)"
  then have "\<not> step_ok bs (header_field e bs 0) (header_field e bs 1) j"
    by (simp add: step_ok_def)
  with a have "LPAKParser_init (open_rb bs) =
      Inl (step_error bs (header_field e bs 0) (header_field e bs 1) j)"
    by (intro init_step_failure) simp_all
  with a show "LPAKParser_init (open_rb bs) = Inl UnicodeDecodeError"
    by (simp add: step_error_def)
qed

text \<open>
  The bundle with the name \<^verbatim>\<open>b"\xc3\x28"\<close> has the tag, a supported version and all the
  bytes the reads need, and the parse raises \<^verbatim>\<open>UnicodeDecodeError\<close>.
\<close>

theorem undecodable_name_fails_witness:
  "magic_endianness bad_name_bundle = Some Big \<and> version_field Big bad_name_bundle = 1 \<and>
   entry_ok bad_name_bundle 40 0 \<and> name_ok bad_name_bundle 60 0 \<and>
   name_at bad_name_bundle 60 0 = [0xC3, 0x28] \<and>
   LPAKParser_init (open_rb bad_name_bundle) = Inl UnicodeDecodeError"
proof -
  have n: "num_files Big bad_name_bundle = 1"
    by (simp add: num_files_def bad_header)
  have e: "entry_ok bad_name_bundle 40 0" and m: "name_ok bad_name_bundle 60 0"
    by (simp_all add: entry_ok_def name_ok_def bad_length)
  have r: "name_at bad_name_bundle 60 0 = [0xC3, 0x28]"
    by (simp add: name_at_def bad_raw)
  have d: "\<not> decodable [0xC3, 0x28]"
    by (simp add: decodable_def cont_def)
  from undecodable_name_fails [of bad_name_bundle Big 0] e m r d
  have "LPAKParser_init (open_rb bad_name_bundle) = Inl UnicodeDecodeError"
    by (simp add: bad_magic bad_version bad_length n bad_header steps_ok_0)
  with e m r show ?thesis by (simp add: bad_magic bad_version)
qed

end
